theory Spec2Isabelle
  imports Main "HOL-Library.AList" "HOL-Library.Char_ord" "HOL-Library.List_Lexorder"
    "HOL-Library.Sublist"
begin

section \<open>The selection tree of \<^verbatim>\<open>checkbox_ng/urwid_ui.py\<close>\<close>

text \<open>
  The module draws a tree of test jobs grouped by category and lets the operator include or
  exclude jobs. The tree has three levels: the root \<^verbatim>\<open>CategoryNode\<close> (depth 0), one
  \<^verbatim>\<open>CategoryNode\<close> per participating category (depth 1) and one \<^verbatim>\<open>JobNode\<close> per job
  (depth 2). urwid keeps, for every node, its children in a dictionary indexed by key, so a
  node is identified by the keys on the way from the root: the root is \<open>[]\<close>, a category is
  \<open>[c]\<close>, a job is \<open>[c, j]\<close>.

  Python strings are modelled as \<open>string\<close>, ordered lexicographically by character code as
  Python orders them.
\<close>

subsection \<open>Data\<close>

type_synonym node = "string list"

text \<open>One dictionary of \<^verbatim>\<open>test_info_list\<close> (lines 242 to 246).\<close>

record job =
  job_id :: string
  job_name :: string
  category_id :: string

text \<open>
  The session assistant \<^verbatim>\<open>sa\<close> handed to \<^verbatim>\<open>CategoryBrowser\<close>, an object of another
  package: the methods the module calls on it are the fields. \<open>gettext\<close> is the translation
  function imported as \<^verbatim>\<open>_\<close>.
\<close>

record env =
  get_static_todo_list :: "string list"
  tr_summary :: "string \<Rightarrow> string"
  effective_category_id :: "string \<Rightarrow> string"
  get_participating_categories :: "string list"
  tr_name :: "string \<Rightarrow> string"
  gettext :: "string \<Rightarrow> string"

text \<open>
  A \<^verbatim>\<open>FlagUnitWidget\<close>. \<open>flagged\<close> and \<open>expanded\<close> are the attributes of the source.
  The urwid widget \<^verbatim>\<open>self._w\<close> is kept as what the module writes into it: \<open>box\<close> is the
  first column (\<open>True\<close> for \<^verbatim>\<open>[X]\<close>), \<open>label\<close> the text of the last column. \<open>live\<close> says
  that \<^verbatim>\<open>self._w.base_widget\<close> has a \<^verbatim>\<open>widget_list\<close>; writing a column of a widget that
  is not live raises \<^verbatim>\<open>AttributeError\<close>. \<open>node_value\<close> is what \<^verbatim>\<open>get_node().get_value()\<close>
  gives: the value that the widget's node got when it was made.
\<close>

record widget =
  flagged :: bool
  expanded :: bool
  box :: bool
  label :: string
  live :: bool
  node_value :: string

text \<open>
  The state: \<open>widgets\<close> holds the \<^verbatim>\<open>_widget\<close> attribute of every node (\<open>None\<close> until
  \<^verbatim>\<open>get_widget\<close> loads it); the other three fields are the module's globals of lines 29
  to 31. The dictionary \<^verbatim>\<open>_widget_cache\<close> is an association list in insertion order; a
  widget is referred to by its node.
\<close>

record state =
  widgets :: "node \<Rightarrow> widget option"
  widget_cache :: "(string \<times> node) list"
  test_info_list :: "job list"
  show_job_ids :: bool

definition module_state :: state where
  "module_state = \<lparr>widgets = (\<lambda>_. None), widget_cache = [], test_info_list = [],
     show_job_ids = False\<rparr>"

datatype error = AttributeError | IndexError | KeyError

text \<open>
  A call either returns (\<open>Inr\<close>) or raises (\<open>Inl\<close>); what was written before the raise stays
  written, so the error carries the state at the raise.
\<close>

type_synonym 'a result = "(error \<times> state) + 'a"

subsection \<open>Nodes\<close>

definition root_node :: node where
  "root_node = []"

definition get_depth :: "node \<Rightarrow> nat" where
  "get_depth p = length p"

definition get_key :: "node \<Rightarrow> string" where
  "get_key p = last p"

definition get_parent :: "node \<Rightarrow> node option" where
  "get_parent p = (if p = [] then None else Some (butlast p))"

text \<open>
  \<^verbatim>\<open>is_leaf\<close> is true of a \<^verbatim>\<open>JobNode\<close>. \<^verbatim>\<open>load_child_node\<close> (lines 212 to 221) makes a
  \<^verbatim>\<open>CategoryNode\<close> below the root and a \<^verbatim>\<open>JobNode\<close> below every other node, so the
  leaves are the nodes of depth 2.
\<close>

definition is_leaf :: "node \<Rightarrow> bool" where
  "is_leaf p \<longleftrightarrow> 2 \<le> get_depth p"

definition get_child_node :: "node \<Rightarrow> string \<Rightarrow> node" where
  "get_child_node p key = p @ [key]"

text \<open>\<^verbatim>\<open>load_child_keys\<close>, lines 202 to 210; \<^verbatim>\<open>sorted\<close> is stable, as \<open>sort_key\<close> is.\<close>

definition get_child_keys :: "env \<Rightarrow> state \<Rightarrow> node \<Rightarrow> string list" where
  "get_child_keys e s p =
     (if get_depth p = 0 then sort_key (tr_name e) (get_participating_categories e)
      else sort (map job_id (filter (\<lambda>j. category_id j = get_key p) (test_info_list s))))"

text \<open>
  The value that \<^verbatim>\<open>load_child_node\<close> gives a \<^verbatim>\<open>JobNode\<close> (lines 218 and 219): the name of
  the first job with this id in the job list of that moment. The key comes from
  \<open>get_child_keys\<close> over the same list, so the search finds one. Every call of
  \<^verbatim>\<open>get_child_node\<close> in the module is followed at once by \<^verbatim>\<open>get_widget\<close>, so the model
  takes the value when it loads the widget, and keeps it there. The value of a
  \<^verbatim>\<open>CategoryNode\<close> is the session assistant (lines 215 and 248), which the model has as
  \<open>env\<close>: nothing is kept for it.
\<close>

definition load_child_value :: "state \<Rightarrow> node \<Rightarrow> string" where
  "load_child_value s p =
     (if is_leaf p
      then (case find (\<lambda>j. job_id j = get_key p) (test_info_list s) of
              Some j \<Rightarrow> job_name j
            | None \<Rightarrow> [])
      else [])"

subsection \<open>Widgets\<close>

text \<open>\<^verbatim>\<open>get_display_text\<close> of \<^verbatim>\<open>JobTreeWidget\<close> (lines 164 to 169) and of
  \<^verbatim>\<open>CategoryWidget\<close> (lines 181 to 186), for the widget of the node \<open>p\<close> whose value is
  \<open>v\<close>.\<close>

definition get_display_text :: "env \<Rightarrow> state \<Rightarrow> node \<Rightarrow> string \<Rightarrow> string" where
  "get_display_text e s p v =
     (if is_leaf p then (if show_job_ids s then get_key p else v)
      else if get_depth p = 0 then gettext e ''Categories''
      else tr_name e (get_key p))"

text \<open>
  \<^verbatim>\<open>FlagUnitWidget.__init__\<close> (lines 43 to 48): the widget starts flagged, urwid's
  \<^verbatim>\<open>TreeWidget\<close> starts expanded and builds the columns of \<^verbatim>\<open>get_indented_widget\<close>
  around the display text, and the closing \<^verbatim>\<open>update_w\<close> shows the box of the flag.
\<close>

definition FlagUnitWidget_init :: "env \<Rightarrow> state \<Rightarrow> node \<Rightarrow> widget" where
  "FlagUnitWidget_init e s p =
     \<lparr>flagged = True, expanded = True, box = True,
      label = get_display_text e s p (load_child_value s p),
      live = True, node_value = load_child_value s p\<rparr>"

text \<open>\<^verbatim>\<open>add_widget\<close>, lines 320 to 322.\<close>

definition add_widget :: "string \<Rightarrow> node \<Rightarrow> state \<Rightarrow> state" where
  "add_widget i w s = s\<lparr>widget_cache := AList.update i w (widget_cache s)\<rparr>"

text \<open>
  \<^verbatim>\<open>load_widget\<close>: a \<^verbatim>\<open>JobTreeWidget\<close> for a leaf (lines 160 to 162), which registers
  itself in the cache, a \<^verbatim>\<open>CategoryWidget\<close> otherwise (lines 174 to 179), expanded only
  at the root.
\<close>

definition load_widget :: "env \<Rightarrow> node \<Rightarrow> state \<Rightarrow> state" where
  "load_widget e p s =
     (if is_leaf p
      then add_widget (get_key p) p (s\<lparr>widgets := (widgets s)(p \<mapsto> FlagUnitWidget_init e s p)\<rparr>)
      else s\<lparr>widgets := (widgets s)
             (p \<mapsto> (FlagUnitWidget_init e s p)\<lparr>expanded := (get_depth p = 0)\<rparr>)\<rparr>)"

text \<open>urwid's \<^verbatim>\<open>get_widget\<close>: the node's widget, loaded at the first call.\<close>

definition get_widget :: "env \<Rightarrow> node \<Rightarrow> state \<Rightarrow> state" where
  "get_widget e p s = (case widgets s p of None \<Rightarrow> load_widget e p s | Some w \<Rightarrow> s)"

definition is_flagged :: "state \<Rightarrow> node \<Rightarrow> bool" where
  "is_flagged s p = (case widgets s p of None \<Rightarrow> False | Some w \<Rightarrow> flagged w)"

definition set_flagged :: "node \<Rightarrow> bool \<Rightarrow> state \<Rightarrow> state" where
  "set_flagged p b s =
     s\<lparr>widgets := (widgets s)(p := map_option (\<lambda>w. w\<lparr>flagged := b\<rparr>) (widgets s p))\<rparr>"

text \<open>
  \<^verbatim>\<open>update_w\<close>, lines 150 to 155: the first column takes the box of the flag. Reaching
  \<^verbatim>\<open>widget_list\<close> raises \<^verbatim>\<open>AttributeError\<close> when the widget is not live (as does a
  call on a node that has no widget).
\<close>

definition update_w :: "node \<Rightarrow> state \<Rightarrow> state result" where
  "update_w p s =
     (case widgets s p of
        None \<Rightarrow> Inl (AttributeError, s)
      | Some w \<Rightarrow>
          if live w then Inr (s\<lparr>widgets := (widgets s)(p \<mapsto> w\<lparr>box := flagged w\<rparr>)\<rparr>)
          else Inl (AttributeError, s))"

subsection \<open>Propagation\<close>

text \<open>
  \<^verbatim>\<open>set_descendants_state\<close>, lines 136 to 148. \<open>descend_children\<close> is its \<^verbatim>\<open>for\<close> loop
  over the keys still to visit: the \<^verbatim>\<open>break\<close> of the handler leaves the loop with the
  state as it is, the flag of the child already written.
\<close>

function set_descendants_state :: "env \<Rightarrow> node \<Rightarrow> bool \<Rightarrow> state \<Rightarrow> state"
  and descend_children :: "env \<Rightarrow> node \<Rightarrow> string list \<Rightarrow> bool \<Rightarrow> state \<Rightarrow> state"
where
  "set_descendants_state e p new_state s =
     (if is_leaf p then s
      else descend_children e p (get_child_keys e s p) new_state s)"
| "descend_children e p [] new_state s = s"
| "descend_children e p (key # keys) new_state s =
     (let child = get_child_node p key;
          s1 = set_flagged child new_state (get_widget e child s)
      in case update_w child s1 of
           Inl x \<Rightarrow> s1
         | Inr s2 \<Rightarrow>
             descend_children e p keys new_state (set_descendants_state e child new_state s2))"
  by pat_completeness auto
termination
  by (relation "measures
        [\<lambda>x. case x of
              Inl (e, p, b, s) \<Rightarrow> 2 * (2 - length p)
            | Inr (e, p, ks, b, s) \<Rightarrow> max 1 (2 * (2 - length p) - 1),
         \<lambda>x. case x of Inl (e, p, b, s) \<Rightarrow> 0 | Inr (e, p, ks, b, s) \<Rightarrow> length ks]")
    (auto simp: is_leaf_def get_depth_def get_child_node_def)

text \<open>
  The generator of lines 128 and 129, consumed by \<^verbatim>\<open>any\<close>: the children are visited in
  key order, each one's widget is fetched (and loaded if it was not), and the visit stops at
  the first flagged child.
\<close>

fun any_child_flagged :: "env \<Rightarrow> node \<Rightarrow> string list \<Rightarrow> state \<Rightarrow> bool \<times> state" where
  "any_child_flagged e p [] s = (False, s)"
| "any_child_flagged e p (key # keys) s =
     (let child = get_child_node p key; s1 = get_widget e child s
      in if is_flagged s1 child then (True, s1) else any_child_flagged e p keys s1)"

text \<open>The \<^verbatim>\<open>while\<close> loop of lines 119 to 123, from \<open>parent\<close> upward.\<close>

function ancestors_all :: "env \<Rightarrow> node option \<Rightarrow> bool \<Rightarrow> state \<Rightarrow> state result" where
  "ancestors_all e None new_state s = Inr s"
| "ancestors_all e (Some parent) new_state s =
     (let s1 = set_flagged parent new_state (get_widget e parent s)
      in case update_w parent s1 of
           Inl x \<Rightarrow> Inl x
         | Inr s2 \<Rightarrow> ancestors_all e (get_parent parent) new_state s2)"
  by pat_completeness auto
termination
  by (relation "measure (\<lambda>(e, q, b, s). case q of None \<Rightarrow> 0 | Some p \<Rightarrow> Suc (length p))")
    (auto simp: get_parent_def split: if_splits)

text \<open>The \<^verbatim>\<open>while\<close> loop of lines 127 to 134, with its \<^verbatim>\<open>break\<close>.\<close>

function ancestors_unless :: "env \<Rightarrow> node option \<Rightarrow> bool \<Rightarrow> state \<Rightarrow> state result" where
  "ancestors_unless e None new_state s = Inr s"
| "ancestors_unless e (Some parent) new_state s =
     (case any_child_flagged e parent (get_child_keys e s parent) s of
        (True, s1) \<Rightarrow> Inr s1
      | (False, s1) \<Rightarrow>
          (let s2 = set_flagged parent new_state (get_widget e parent s1)
           in case update_w parent s2 of
                Inl x \<Rightarrow> Inl x
              | Inr s3 \<Rightarrow> ancestors_unless e (get_parent parent) new_state s3))"
  by pat_completeness auto
termination
  by (relation "measure (\<lambda>(e, q, b, s). case q of None \<Rightarrow> 0 | Some p \<Rightarrow> Suc (length p))")
    (auto simp: get_parent_def split: if_splits)

text \<open>
  \<^verbatim>\<open>set_ancestors_state\<close>, lines 114 to 134. The branch is chosen by the widget's own
  flag, not by \<open>new_state\<close>.
\<close>

definition set_ancestors_state :: "env \<Rightarrow> node \<Rightarrow> bool \<Rightarrow> state \<Rightarrow> state result" where
  "set_ancestors_state e p new_state s =
     (case widgets s p of
        None \<Rightarrow> Inl (AttributeError, s)
      | Some w \<Rightarrow>
          if flagged w then ancestors_all e (get_parent p) new_state s
          else ancestors_unless e (get_parent p) new_state s)"

subsection \<open>Keys\<close>

text \<open>\<^verbatim>\<open>update_expanded_icon\<close>, lines 73 to 77: it writes the third column.\<close>

definition update_expanded_icon :: "node \<Rightarrow> state \<Rightarrow> state result" where
  "update_expanded_icon p s =
     (case widgets s p of
        None \<Rightarrow> Inl (AttributeError, s)
      | Some w \<Rightarrow> if live w then Inr s else Inl (AttributeError, s))"

text \<open>
  The loop of lines 106 to 110 over the widgets of the cache: the last column of each is
  rebuilt from \<^verbatim>\<open>load_inner_widget\<close>, that is from \<open>get_display_text\<close>.
\<close>

fun reload_labels :: "env \<Rightarrow> node list \<Rightarrow> state \<Rightarrow> state result" where
  "reload_labels e [] s = Inr s"
| "reload_labels e (w # ws) s =
     (case widgets s w of
        None \<Rightarrow> Inl (AttributeError, s)
      | Some x \<Rightarrow>
          if live x
          then reload_labels e ws
                 (s\<lparr>widgets := (widgets s)
                    (w \<mapsto> x\<lparr>label := get_display_text e s w (node_value x)\<rparr>)\<rparr>)
          else Inl (AttributeError, s))"

text \<open>
  \<^verbatim>\<open>unhandled_keys\<close>, lines 94 to 112, of the widget of node \<open>p\<close>. It returns the key
  when it does not handle it and \<^verbatim>\<open>None\<close> when it does.
\<close>

definition unhandled_keys :: "env \<Rightarrow> node \<Rightarrow> string \<Rightarrow> state \<Rightarrow> (string option \<times> state) result"
where
  "unhandled_keys e p key s =
     (case widgets s p of
        None \<Rightarrow> Inl (AttributeError, s)
      | Some w \<Rightarrow>
          if key = '' '' then
            (let s1 = set_flagged p (\<not> flagged w) s;
                 s2 = set_descendants_state e p (is_flagged s1 p) s1
             in case set_ancestors_state e p (is_flagged s2 p) s2 of
                  Inl x \<Rightarrow> Inl x
                | Inr s3 \<Rightarrow>
                    (case update_w p s3 of Inl x \<Rightarrow> Inl x | Inr s4 \<Rightarrow> Inr (None, s4)))
          else if \<not> is_leaf p \<and> key = ''enter'' then
            (let s1 = s\<lparr>widgets := (widgets s)(p \<mapsto> w\<lparr>expanded := \<not> expanded w\<rparr>)\<rparr>
             in case update_expanded_icon p s1 of
                  Inl x \<Rightarrow> Inl x
                | Inr s2 \<Rightarrow> Inr (None, s2))
          else if key = ''i'' \<or> key = ''I'' then
            (let s1 = s\<lparr>show_job_ids := \<not> show_job_ids s\<rparr>
             in case reload_labels e (map snd (widget_cache s1)) s1 of
                  Inl x \<Rightarrow> Inl x
                | Inr s2 \<Rightarrow> Inr (None, s2))
          else Inr (Some key, s))"

subsection \<open>The category browser\<close>

text \<open>
  \<^verbatim>\<open>CategoryBrowser.__init__\<close>, lines 238 to 249, run in the state \<open>g\<close> of the globals:
  the job list is rebuilt from the session assistant, the tree is a new root node with no
  widget loaded, and the root's widget flags every descendant.

  Nothing empties the cache here. A widget of an earlier browser that the cache still holds
  (that browser was built and never run) stays what it is, flag and columns, and keeps its
  place in the cache until a job of the new tree with the same id takes it (line 322); its
  node is no node of the new tree. The store keeps such a widget under \<open>former n\<close>, three
  keys deeper than any node of a tree, and drops the earlier widgets that the cache does
  not hold: nothing refers to them.
\<close>

definition former :: "node \<Rightarrow> node" where
  "former n = [[], [], []] @ n"

definition CategoryBrowser_init :: "env \<Rightarrow> state \<Rightarrow> state" where
  "CategoryBrowser_init e g =
     (let s0 = g\<lparr>widgets :=
                   (\<lambda>a. if take 3 a = [[], [], []] \<and> drop 3 a \<in> snd ` set (widget_cache g)
                        then widgets g (drop 3 a) else None),
                 widget_cache := map (\<lambda>(i, n). (i, former n)) (widget_cache g),
                 test_info_list :=
                   map (\<lambda>i. \<lparr>job_id = i, job_name = tr_summary e i,
                              category_id = effective_category_id e i\<rparr>)
                     (get_static_todo_list e)\<rparr>
      in set_descendants_state e root_node True (get_widget e root_node s0))"

text \<open>
  urwid's main loop, as far as the module sees it. The input is the list of keys that reach
  \<^verbatim>\<open>unhandled_keys\<close>, each with the node in focus, whose widget the tree walker fetches.
  A key that comes back unhandled goes to \<^verbatim>\<open>unhandled_input\<close> (lines 272 to 274), which
  ends the loop on \<^verbatim>\<open>t\<close> and \<^verbatim>\<open>T\<close>. The loop waits for ever when the input ends without
  one of them: \<open>None\<close>.
\<close>

type_synonym event = "node \<times> string"

fun main_loop :: "env \<Rightarrow> event list \<Rightarrow> state \<Rightarrow> state result option" where
  "main_loop e [] s = None"
| "main_loop e ((p, key) # evs) s =
     (case unhandled_keys e p key (get_widget e p s) of
        Inl x \<Rightarrow> Some (Inl x)
      | Inr (None, s1) \<Rightarrow> main_loop e evs s1
      | Inr (Some k, s1) \<Rightarrow>
          if k = ''t'' \<or> k = ''T'' then Some (Inr s1) else main_loop e evs s1)"

text \<open>\<^verbatim>\<open>CategoryBrowser.run\<close>, lines 258 to 270: the frozen selection and the state left.\<close>

definition selection :: "state \<Rightarrow> string list" where
  "selection s = map (\<lambda>(i, w). get_key w) (filter (\<lambda>(i, w). is_flagged s w) (widget_cache s))"

definition run :: "env \<Rightarrow> event list \<Rightarrow> state \<Rightarrow> (string set \<times> state) result option" where
  "run e evs s =
     (case main_loop e evs s of
        None \<Rightarrow> None
      | Some (Inl x) \<Rightarrow> Some (Inl x)
      | Some (Inr s1) \<Rightarrow>
          Some (Inr (set (selection s1), s1\<lparr>widget_cache := [], test_info_list := []\<rparr>)))"

subsection \<open>The test plan picker\<close>

text \<open>
  urwid's command map, from keys to command names. There is one for the whole process:
  \<^verbatim>\<open>_command_map\<close> is an attribute of the widget class, so \<^verbatim>\<open>frame._command_map\<close> of
  line 306 is the dictionary that every widget of every frame looks its keys up in, and what
  line 306 deletes stays deleted when \<^verbatim>\<open>TestPlanBrowser\<close> has returned. A button reacts
  to the keys bound to urwid's \<^verbatim>\<open>ACTIVATE\<close>, the string \<open>activate\<close>.
\<close>

type_synonym command_map = "string \<rightharpoonup> string"

text \<open>
  The radio buttons of the group are the list of their states, all built with
  \<^verbatim>\<open>state=False\<close>. urwid's \<^verbatim>\<open>RadioButton.set_state(True)\<close> leaves a button that is set
  as it is, and otherwise sets it and clears the other buttons of the group.
\<close>

definition set_state_True :: "nat \<Rightarrow> bool list \<Rightarrow> bool list" where
  "set_state_True i g = (if g ! i then g else map (\<lambda>j. j = i) [0..<length g])"

text \<open>
  The main loop of the picker. An input is a key with the index of the button in focus.
  A key bound to \<open>activate\<close> sets the button in focus; \<^verbatim>\<open>enter\<close>, when no button takes
  it, reaches \<^verbatim>\<open>unhandled\<close> (lines 308 to 310), which ends the loop. \<open>None\<close>: the input
  ends before the loop does.
\<close>

fun plan_loop :: "command_map \<Rightarrow> (nat \<times> string) list \<Rightarrow> bool list \<Rightarrow> bool list option" where
  "plan_loop cm [] g = None"
| "plan_loop cm ((focus, key) # evs) g =
     (if cm key = Some ''activate'' \<and> focus < length g
      then plan_loop cm evs (set_state_True focus g)
      else if key = ''enter'' then Some g
      else plan_loop cm evs g)"

text \<open>
  \<^verbatim>\<open>TestPlanBrowser\<close>, lines 276 to 317, called when the command map is \<open>cm\<close>; it
  returns its value with the command map it leaves, or raises.

  Line 298 tests \<^verbatim>\<open>selection\<close> for truth, so \<^verbatim>\<open>None\<close> and \<open>0\<close> select nothing; any other
  index is looked up as Python does, from the end when negative, and raises
  \<^verbatim>\<open>IndexError\<close> out of range. Line 306 deletes \<^verbatim>\<open>enter\<close> from the command map, and
  raises \<^verbatim>\<open>KeyError\<close> when the map does not bind it. The loop then runs with the map
  without \<^verbatim>\<open>enter\<close>, and the value returned is the index of the first button that is set
  (lines 313 to 317).
\<close>

definition TestPlanBrowser ::
  "string \<Rightarrow> string list \<Rightarrow> int option \<Rightarrow> (nat \<times> string) list \<Rightarrow> command_map \<Rightarrow>
     ((error \<times> command_map) + (nat option \<times> command_map)) option"
where
  "TestPlanBrowser title test_plan_list sel evs cm =
     (let radio_button_group = map (\<lambda>txt. False) test_plan_list;
          n = int (length radio_button_group)
      in case (case sel of
                 None \<Rightarrow> Inr radio_button_group
               | Some i \<Rightarrow>
                   if i = 0 then Inr radio_button_group
                   else if - n \<le> i \<and> i < n
                   then Inr (set_state_True (nat (if i < 0 then n + i else i)) radio_button_group)
                   else Inl IndexError) of
           Inl x \<Rightarrow> Some (Inl (x, cm))
         | Inr g \<Rightarrow>
             (case cm ''enter'' of
                None \<Rightarrow> Some (Inl (KeyError, cm))
              | Some c \<Rightarrow>
                  (let cm1 = cm(''enter'' := None)
                   in case plan_loop cm1 evs g of
                        None \<Rightarrow> None
                      | Some g' \<Rightarrow> Some (Inr (find (\<lambda>j. g' ! j) [0..<length g'], cm1)))))"

section \<open>Properties\<close>

subsection \<open>Notions used in the statements\<close>

text \<open>
  The nodes below \<open>p\<close>, in the order in which \<open>set_descendants_state\<close> meets them;
  \<open>subtrees e s p ks\<close> are the children of \<open>p\<close> under the keys \<open>ks\<close>, each followed by the
  nodes below it. \<open>tree_nodes\<close> are the nodes of the whole tree. \<open>cats\<close> are the keys below the
  root and \<open>jobs s c\<close> the keys below the category \<open>c\<close>.
\<close>

function descendants :: "env \<Rightarrow> state \<Rightarrow> node \<Rightarrow> node list"
  and subtrees :: "env \<Rightarrow> state \<Rightarrow> node \<Rightarrow> string list \<Rightarrow> node list"
where
  "descendants e s p = (if is_leaf p then [] else subtrees e s p (get_child_keys e s p))"
| "subtrees e s p [] = []"
| "subtrees e s p (k # ks) =
     get_child_node p k # descendants e s (get_child_node p k) @ subtrees e s p ks"
  by pat_completeness auto
termination
  by (relation "measures
        [\<lambda>x. case x of
              Inl (e, s, p) \<Rightarrow> 2 * (2 - length p)
            | Inr (e, s, p, ks) \<Rightarrow> max 1 (2 * (2 - length p) - 1),
         \<lambda>x. case x of Inl (e, s, p) \<Rightarrow> 0 | Inr (e, s, p, ks) \<Rightarrow> length ks]")
    (auto simp: is_leaf_def get_depth_def get_child_node_def)

definition children :: "env \<Rightarrow> state \<Rightarrow> node \<Rightarrow> node list" where
  "children e s p = (if is_leaf p then [] else map (get_child_node p) (get_child_keys e s p))"

definition tree_nodes :: "env \<Rightarrow> state \<Rightarrow> node list" where
  "tree_nodes e s = root_node # descendants e s root_node"

definition cats :: "env \<Rightarrow> string set" where
  "cats e = set (get_participating_categories e)"

definition jobs :: "state \<Rightarrow> string \<Rightarrow> string set" where
  "jobs s c = job_id ` {j \<in> set (test_info_list s). category_id j = c}"

text \<open>
  A node is loaded when it has a widget and materialized when that widget is live; its
  widget is dead when it is loaded and not live. \<open>family_materialized e s n\<close>: the proper
  ancestors of \<open>n\<close> and their children are materialized.
\<close>

definition loaded :: "state \<Rightarrow> node \<Rightarrow> bool" where
  "loaded s m \<longleftrightarrow> widgets s m \<noteq> None"

definition materialized :: "state \<Rightarrow> node \<Rightarrow> bool" where
  "materialized s p = (case widgets s p of None \<Rightarrow> False | Some w \<Rightarrow> live w)"

definition dead :: "state \<Rightarrow> node \<Rightarrow> bool" where
  "dead s p = (case widgets s p of None \<Rightarrow> False | Some w \<Rightarrow> \<not> live w)"

definition all_materialized :: "env \<Rightarrow> state \<Rightarrow> bool" where
  "all_materialized e s \<longleftrightarrow> (\<forall>n \<in> set (tree_nodes e s). materialized s n)"

definition family_materialized :: "env \<Rightarrow> state \<Rightarrow> node \<Rightarrow> bool" where
  "family_materialized e s n \<longleftrightarrow>
     (\<forall>a. strict_prefix a n \<longrightarrow>
        materialized s a \<and> (\<forall>k \<in> set (get_child_keys e s a). materialized s (a @ [k])))"

text \<open>The state in which a call ends, returned or raised.\<close>

definition result_state :: "state result \<Rightarrow> state" where
  "result_state r = (case r of Inl (x, s) \<Rightarrow> s | Inr s \<Rightarrow> s)"

text \<open>
  One step of the loop of \<open>set_descendants_state\<close> on the child \<open>d\<close>, without the recursive
  call: the widget is fetched, flagged and redrawn (when it is live). \<open>flag_all X b\<close> writes
  the flag \<open>b\<close>, and its box, into the loaded widgets of the nodes of \<open>X\<close>. \<open>fix_box\<close> is
  what \<^verbatim>\<open>update_w\<close> does to a materialized node.
\<close>

definition visit :: "env \<Rightarrow> bool \<Rightarrow> node \<Rightarrow> state \<Rightarrow> state" where
  "visit e b d s =
     (let s1 = set_flagged d b (get_widget e d s)
      in case update_w d s1 of Inl x \<Rightarrow> s1 | Inr s2 \<Rightarrow> s2)"

definition touch :: "bool \<Rightarrow> widget \<Rightarrow> widget" where
  "touch b w = w\<lparr>flagged := b, box := b\<rparr>"

definition flag_all :: "node set \<Rightarrow> bool \<Rightarrow> state \<Rightarrow> state" where
  "flag_all X b s =
     s\<lparr>widgets := (\<lambda>m. if m \<in> X then map_option (touch b) (widgets s m) else widgets s m)\<rparr>"

definition fix_box :: "node \<Rightarrow> state \<Rightarrow> state" where
  "fix_box p s =
     s\<lparr>widgets := (widgets s)(p := map_option (\<lambda>w. w\<lparr>box := flagged w\<rparr>) (widgets s p))\<rparr>"

text \<open>
  For a node \<open>n\<close> and a proper ancestor \<open>a\<close>: \<open>a\<close> has an included child other than the one
  on the way to \<open>n\<close>. \<open>cleared e s n\<close> are the proper ancestors of \<open>n\<close> with no such child at
  their own level nor at any level between them and \<open>n\<close>. \<open>toggled e p s\<close> is the state the
  space key on \<open>p\<close> leaves when the tree is materialized.
\<close>

definition other_child_flagged :: "env \<Rightarrow> state \<Rightarrow> node \<Rightarrow> node \<Rightarrow> bool" where
  "other_child_flagged e s n a \<longleftrightarrow>
     (\<exists>k \<in> set (get_child_keys e s a). \<not> prefix (a @ [k]) n \<and> is_flagged s (a @ [k]))"

definition cleared :: "env \<Rightarrow> state \<Rightarrow> node \<Rightarrow> node set" where
  "cleared e s n =
     {m. strict_prefix m n \<and>
         (\<forall>a. prefix m a \<and> strict_prefix a n \<longrightarrow> \<not> other_child_flagged e s n a)}"

definition toggled :: "env \<Rightarrow> node \<Rightarrow> state \<Rightarrow> state" where
  "toggled e p s =
     (let b = \<not> is_flagged s p;
          s2 = flag_all (set (descendants e s p)) b (set_flagged p b s)
      in fix_box p (flag_all (if b then {m. strict_prefix m p} else cleared e s2 p) b s2))"

text \<open>
  The state after the keys of \<open>evs\<close>, each delivered to \<open>unhandled_keys\<close> of the widget in
  focus (the main loop without its exit); a raise ends the sequence.
\<close>

fun key_presses :: "env \<Rightarrow> event list \<Rightarrow> state \<Rightarrow> state result" where
  "key_presses e [] s = Inr s"
| "key_presses e ((p, key) # evs) s =
     (case unhandled_keys e p key (get_widget e p s) of
        Inl x \<Rightarrow> Inl x
      | Inr (r, s1) \<Rightarrow> key_presses e evs s1)"

text \<open>
  What every key of a session keeps: the tree is materialized, every node with children is
  included exactly when one of its children is (\<open>consistent\<close>), and the cache holds job
  widgets of the tree under their keys. \<open>claimed_invariant\<close> is the consistency that also
  asks a node without materialized children to be included.
\<close>

definition consistent :: "env \<Rightarrow> state \<Rightarrow> bool" where
  "consistent e s \<longleftrightarrow>
     (\<forall>n \<in> set (tree_nodes e s). \<not> is_leaf n \<and> children e s n \<noteq> [] \<longrightarrow>
        (is_flagged s n \<longleftrightarrow> (\<exists>c \<in> set (children e s n). is_flagged s c)))"

definition cache_in_tree :: "env \<Rightarrow> state \<Rightarrow> bool" where
  "cache_in_tree e s \<longleftrightarrow>
     (\<forall>(k, n) \<in> set (widget_cache s). n \<in> set (tree_nodes e s) \<and> is_leaf n \<and> k = get_key n)"

definition session_inv :: "env \<Rightarrow> state \<Rightarrow> bool" where
  "session_inv e s \<longleftrightarrow> all_materialized e s \<and> consistent e s \<and> cache_in_tree e s"

definition claimed_invariant :: "env \<Rightarrow> state \<Rightarrow> bool" where
  "claimed_invariant e s \<longleftrightarrow>
     (\<forall>n \<in> set (tree_nodes e s). \<not> is_leaf n \<longrightarrow>
        (is_flagged s n \<longleftrightarrow>
           (\<exists>c \<in> set (children e s n). materialized s c \<and> is_flagged s c) \<or>
           (\<forall>c \<in> set (children e s n). \<not> materialized s c)))"

text \<open>
  Two facts that the descent with \<open>True\<close> keeps: every loaded widget is flagged and live
  (\<open>sound\<close>), and the key of every loaded leaf is bound in the cache to a loaded widget
  (\<open>bound\<close>). \<open>init_jobs\<close> is the job list of lines 242 to 246, \<open>init_root\<close> the state in
  which the root's widget starts the descent of line 249.
\<close>

definition sound :: "state \<Rightarrow> bool" where
  "sound s \<longleftrightarrow> (\<forall>m w. widgets s m = Some w \<longrightarrow> flagged w \<and> live w)"

definition bound :: "state \<Rightarrow> bool" where
  "bound s \<longleftrightarrow>
     (\<forall>d. is_leaf d \<and> widgets s d \<noteq> None \<longrightarrow>
        (\<exists>m. map_of (widget_cache s) (get_key d) = Some m \<and> widgets s m \<noteq> None))"

definition init_jobs :: "env \<Rightarrow> job list" where
  "init_jobs e =
     map (\<lambda>i. \<lparr>job_id = i, job_name = tr_summary e i, category_id = effective_category_id e i\<rparr>)
       (get_static_todo_list e)"

definition init_root :: "env \<Rightarrow> state \<Rightarrow> state" where
  "init_root e g = get_widget e root_node (g\<lparr>widgets := (\<lambda>_. None), test_info_list := init_jobs e\<rparr>)"

text \<open>
  \<open>without_labels\<close> erases what the display mode key may write: the label texts and the
  mode itself. \<open>mode_presses\<close> counts the \<open>i\<close> and \<open>I\<close> keys before the first finish key.
\<close>

definition without_labels :: "state \<Rightarrow> state" where
  "without_labels s =
     s\<lparr>widgets := (\<lambda>m. map_option (\<lambda>w. w\<lparr>label := []\<rparr>) (widgets s m)), show_job_ids := False\<rparr>"

definition mode_presses :: "event list \<Rightarrow> nat" where
  "mode_presses evs =
     length (filter (\<lambda>(p, k). k = ''i'' \<or> k = ''I'')
       (takeWhile (\<lambda>(p, k). k \<noteq> ''t'' \<and> k \<noteq> ''T'') evs))"

text \<open>A radio group with the button \<open>i\<close> alone set; a group is well formed when no
  button or one button is set. \<open>urwid_keys\<close> holds the bindings of urwid's default command
  map that the picker meets: the space key and \<open>enter\<close> activate, the arrows move the
  focus.\<close>

definition urwid_keys :: command_map where
  "urwid_keys = [''up'' \<mapsto> ''cursor up'', ''down'' \<mapsto> ''cursor down'',
     '' '' \<mapsto> ''activate'', ''enter'' \<mapsto> ''activate'']"

definition only_button :: "nat \<Rightarrow> nat \<Rightarrow> bool list" where
  "only_button n i = map (\<lambda>j. j = i) [0..<n]"

definition radio_ok :: "bool list \<Rightarrow> bool" where
  "radio_ok g \<longleftrightarrow> g = replicate (length g) False \<or> (\<exists>i < length g. g = only_button (length g) i)"

text \<open>
  Example sessions. \<open>env_AB\<close> has two categories: \<open>A\<close> with \<open>job1\<close> and \<open>job2\<close>, \<open>B\<close> with
  \<open>job3\<close>; \<open>state_AB\<close> is the state its construction leaves. In \<open>state_dead\<close> the widget of
  \<open>job1\<close> has lost its columns. In \<open>state_A_last\<close> the job \<open>job1\<close> has been excluded by a
  space key and the flag of \<open>job2\<close> has just been cleared, as line 96 does before the
  propagation. \<open>env_lonely\<close> has a participating category \<open>A\<close> that no job of the todo list
  belongs to.
\<close>

definition env_AB :: env where
  "env_AB = \<lparr>get_static_todo_list = [''job1'', ''job2'', ''job3''],
     tr_summary = (\<lambda>i. ''Summary of '' @ i),
     effective_category_id = (\<lambda>i. if i = ''job3'' then ''B'' else ''A''),
     get_participating_categories = [''B'', ''A''],
     tr_name = (\<lambda>c. ''Category '' @ c),
     gettext = (\<lambda>c. c)\<rparr>"

definition state_AB :: state where
  "state_AB = CategoryBrowser_init env_AB module_state"

definition state_dead :: state where
  "state_dead =
     state_AB\<lparr>widgets := (widgets state_AB)
       ([''A'', ''job1''] := map_option (\<lambda>w. w\<lparr>live := False\<rparr>) (widgets state_AB [''A'', ''job1'']))\<rparr>"

definition state_A_last :: state where
  "state_A_last =
     set_flagged [''A'', ''job2''] False
       (result_state (key_presses env_AB [([''A'', ''job1''], '' '')] state_AB))"

definition env_lonely :: env where
  "env_lonely = \<lparr>get_static_todo_list = [''job1''],
     tr_summary = (\<lambda>i. ''Summary of '' @ i),
     effective_category_id = (\<lambda>i. ''B''),
     get_participating_categories = [''A'', ''B''],
     tr_name = (\<lambda>c. ''Category '' @ c),
     gettext = (\<lambda>c. c)\<rparr>"

declare set_descendants_state.simps [simp del] descendants.simps [simp del]

subsection \<open>The descent as a fold\<close>

lemma get_widget_globals [simp]:
  "test_info_list (get_widget e p s) = test_info_list s"
  "show_job_ids (get_widget e p s) = show_job_ids s"
  by (simp_all add: get_widget_def load_widget_def add_widget_def split: option.splits)

lemma visit_globals [simp]:
  "test_info_list (visit e b d s) = test_info_list s"
  "show_job_ids (visit e b d s) = show_job_ids s"
  by (simp_all add: visit_def set_flagged_def update_w_def Let_def split: option.splits)

lemma fold_visit_globals [simp]:
  "test_info_list (fold (visit e b) ds s) = test_info_list s"
  "show_job_ids (fold (visit e b) ds s) = show_job_ids s"
  by (induction ds arbitrary: s) simp_all

lemma get_child_keys_cong:
  "test_info_list s' = test_info_list s \<Longrightarrow> get_child_keys e s' p = get_child_keys e s p"
  by (simp add: get_child_keys_def)

lemma children_cong:
  "test_info_list s' = test_info_list s \<Longrightarrow> children e s' p = children e s p"
  using get_child_keys_cong [of s' s e p] by (simp add: children_def)

lemma descendants_subtrees_cong:
  "test_info_list s' = test_info_list s \<longrightarrow> descendants e s' p = descendants e s p"
  "test_info_list s' = test_info_list s \<longrightarrow> subtrees e s' p ks = subtrees e s p ks"
proof (induction e s p and e s p ks rule: descendants_subtrees.induct)
  case (1 e s p)
  show ?case
  proof
    assume eq: "test_info_list s' = test_info_list s"
    then have "get_child_keys e s' p = get_child_keys e s p"
      by (rule get_child_keys_cong)
    with 1 eq show "descendants e s' p = descendants e s p"
      by (simp add: descendants.simps [of e s' p] descendants.simps [of e s p])
  qed
next
  case (2 e s p)
  show ?case by simp
next
  case (3 e s p k ks)
  then show ?case by simp
qed

lemma descendants_cong:
  "test_info_list s' = test_info_list s \<Longrightarrow> descendants e s' p = descendants e s p"
  using descendants_subtrees_cong(1) [of s' s e p] by simp

lemma subtrees_cong:
  "test_info_list s' = test_info_list s \<Longrightarrow> subtrees e s' p ks = subtrees e s p ks"
  using descendants_subtrees_cong(2) [of s' s e p ks] by simp

lemma dead_visit [simp]: "dead (visit e b d s) m = dead s m"
  by (auto simp: visit_def dead_def set_flagged_def update_w_def get_widget_def load_widget_def
      add_widget_def FlagUnitWidget_init_def Let_def split: option.splits)

lemma dead_fold_visit [simp]: "dead (fold (visit e b) ds s) m = dead s m"
  by (induction ds arbitrary: s) simp_all

lemma visit_dead: "dead s d \<Longrightarrow> visit e b d s = set_flagged d b s"
  by (auto simp: visit_def dead_def set_flagged_def update_w_def get_widget_def Let_def
      split: option.splits)

lemma descend_children_Cons:
  "descend_children e p (k # ks) b s =
     (if dead s (p @ [k]) then set_flagged (p @ [k]) b s
      else descend_children e p ks b (set_descendants_state e (p @ [k]) b (visit e b (p @ [k]) s)))"
  by (auto simp: visit_def dead_def set_flagged_def update_w_def get_widget_def load_widget_def
      add_widget_def FlagUnitWidget_init_def Let_def get_child_node_def split: option.splits)

lemma descendants_subtrees:
  "descendants e s p = (if is_leaf p then [] else subtrees e s p (get_child_keys e s p))"
  by (rule descendants.simps)

lemma subtrees_Cons [simp]:
  "subtrees e s p (k # ks) = (p @ [k]) # descendants e s (p @ [k]) @ subtrees e s p ks"
  by (simp add: get_child_node_def)

declare subtrees.simps(2) [simp del]

lemma update_w_visit:
  "\<not> dead s c \<Longrightarrow>
     update_w c (set_flagged c b (get_widget e c s)) = Inr (visit e b c s)"
  by (auto simp: visit_def dead_def set_flagged_def update_w_def get_widget_def load_widget_def
      add_widget_def FlagUnitWidget_init_def Let_def split: option.splits)

lemma flatten:
  "(\<forall>d \<in> set (descendants e s p). \<not> dead s d) \<longrightarrow>
     set_descendants_state e p b s = fold (visit e b) (descendants e s p) s"
  "(\<forall>d \<in> set (subtrees e s p ks). \<not> dead s d) \<longrightarrow>
     descend_children e p ks b s = fold (visit e b) (subtrees e s p ks) s"
proof (induction e p b s and e p ks b s rule: set_descendants_state_descend_children.induct)
  case (1 e p new_state s)
  then show ?case by (simp add: descendants_subtrees set_descendants_state.simps [of e p])
next
  case (2 e p new_state s)
  then show ?case by simp
next
  case (3 e p key keys new_state s)
  show ?case
  proof
    assume H: "\<forall>d\<in>set (subtrees e s p (key # keys)). \<not> dead s d"
    let ?c = "p @ [key]"
    let ?s1 = "visit e new_state ?c s"
    let ?s2 = "set_descendants_state e ?c new_state ?s1"
    from H have nd: "\<not> dead s ?c" by simp
    then have upd: "update_w (get_child_node p key)
        (set_flagged (get_child_node p key) new_state (get_widget e (get_child_node p key) s)) =
        Inr ?s1"
      by (simp add: get_child_node_def update_w_visit)
    have d1: "descendants e ?s1 ?c = descendants e s ?c"
      by (rule descendants_cong) simp
    from H have "\<forall>d\<in>set (descendants e ?s1 ?c). \<not> dead ?s1 d"
      by (simp add: d1)
    with "3.IH"(1) [OF refl refl upd] have s2: "?s2 = fold (visit e new_state) (descendants e s ?c) ?s1"
      by (simp add: get_child_node_def d1)
    have d2: "subtrees e ?s2 p keys = subtrees e s p keys"
      by (rule subtrees_cong) (simp add: s2)
    from H have "\<forall>d\<in>set (subtrees e ?s2 p keys). \<not> dead ?s2 d"
      by (simp add: d2) (simp add: s2)
    with "3.IH"(2) [OF refl refl upd]
    have "descend_children e p keys new_state ?s2 =
        fold (visit e new_state) (subtrees e s p keys) ?s2"
      by (simp add: get_child_node_def d2)
    with nd show "descend_children e p (key # keys) new_state s =
      fold (visit e new_state) (subtrees e s p (key # keys)) s"
      by (simp add: descend_children_Cons s2 del: descend_children.simps)
  qed
qed

subsection \<open>Materialized trees\<close>

lemma flag_all_simps [simp]:
  "widgets (flag_all X b s) m = (if m \<in> X then map_option (touch b) (widgets s m) else widgets s m)"
  "widget_cache (flag_all X b s) = widget_cache s"
  "test_info_list (flag_all X b s) = test_info_list s"
  "show_job_ids (flag_all X b s) = show_job_ids s"
  by (simp_all add: flag_all_def)

lemma flag_all_empty [simp]: "flag_all {} b s = s"
  by (simp add: flag_all_def)

lemma touch_touch [simp]: "touch b (touch b w) = touch b w"
  by (simp add: touch_def)

lemma flag_all_flag_all [simp]: "flag_all X b (flag_all Y b s) = flag_all (X \<union> Y) b s"
  by (rule state.equality) (auto simp: fun_eq_iff option.map_comp comp_def)

lemma materialized_flag_all [simp]: "materialized (flag_all X b s) m = materialized s m"
  by (simp add: materialized_def touch_def split: option.splits)

lemma is_flagged_flag_all:
  "is_flagged (flag_all X b s) m = (if m \<in> X then widgets s m \<noteq> None \<and> b else is_flagged s m)"
  by (auto simp: is_flagged_def touch_def split: option.splits)

lemma visit_materialized:
  "materialized s d \<Longrightarrow> visit e b d s = flag_all {d} b s"
  by (rule state.equality)
    (auto simp: visit_def materialized_def set_flagged_def update_w_def get_widget_def Let_def
      touch_def fun_eq_iff split: option.splits)

lemma fold_visit_materialized:
  "\<forall>d \<in> set ds. materialized s d \<Longrightarrow> fold (visit e b) ds s = flag_all (set ds) b s"
proof (induction ds arbitrary: s)
  case Nil
  then show ?case by simp
next
  case (Cons d ds)
  then show ?case by (simp add: visit_materialized Un_commute)
qed

lemma materialized_not_dead: "materialized s d \<Longrightarrow> \<not> dead s d"
  by (simp add: materialized_def dead_def split: option.splits)

lemma set_descendants_state_materialized:
  assumes "\<forall>d \<in> set (descendants e s p). materialized s d"
  shows "set_descendants_state e p b s = flag_all (set (descendants e s p)) b s"
  using assms flatten(1) [of e s p b] fold_visit_materialized [of "descendants e s p" s e b]
  by (simp add: materialized_not_dead)

lemma is_flagged_visit:
  "is_flagged (visit e b d s) m = (if m = d then b else is_flagged s m)"
  by (auto simp: visit_def is_flagged_def set_flagged_def update_w_def get_widget_def load_widget_def
      add_widget_def FlagUnitWidget_init_def Let_def split: option.splits)

lemma is_flagged_fold_visit:
  "is_flagged (fold (visit e b) ds s) m = (if m \<in> set ds then b else is_flagged s m)"
  by (induction ds arbitrary: s) (auto simp: is_flagged_visit)

lemma widgets_visit_other: "m \<noteq> d \<Longrightarrow> widgets (visit e b d s) m = widgets s m"
  by (auto simp: visit_def set_flagged_def update_w_def get_widget_def load_widget_def
      add_widget_def FlagUnitWidget_init_def Let_def split: option.splits)

lemma widgets_fold_visit_other:
  "m \<notin> set ds \<Longrightarrow> widgets (fold (visit e b) ds s) m = widgets s m"
  by (induction ds arbitrary: s) (auto simp: widgets_visit_other)

lemma any_child_flagged_materialized:
  "\<forall>k \<in> set ks. materialized s (p @ [k]) \<Longrightarrow>
     any_child_flagged e p ks s = (\<exists>k \<in> set ks. is_flagged s (p @ [k]), s)"
  by (induction ks) (auto simp: get_child_node_def get_widget_def materialized_def split: option.splits)

subsection \<open>The three levels\<close>

lemma set_get_child_keys:
  "set (get_child_keys e s p) = (if p = [] then cats e else jobs s (last p))"
  by (auto simp: get_child_keys_def get_depth_def get_key_def cats_def jobs_def)

lemma is_leaf_simps [simp]:
  "\<not> is_leaf []" "\<not> is_leaf [c]" "is_leaf (c # j # r)"
  by (simp_all add: is_leaf_def get_depth_def)

lemma descendants_leaf: "is_leaf p \<Longrightarrow> descendants e s p = []"
  by (simp add: descendants_subtrees)

lemma set_subtrees:
  "set (subtrees e s p ks) = (\<Union>k \<in> set ks. insert (p @ [k]) (set (descendants e s (p @ [k]))))"
  by (induction ks) auto

lemma set_descendants_cat:
  "set (descendants e s [c]) = {[c, j] | j. j \<in> jobs s c}"
  by (auto simp: descendants_subtrees set_subtrees set_get_child_keys descendants_leaf)

lemma set_descendants_root:
  "set (descendants e s []) = {[c] | c. c \<in> cats e} \<union> {[c, j] | c j. c \<in> cats e \<and> j \<in> jobs s c}"
  by (auto simp: descendants_subtrees [of e s "[]"] set_subtrees set_get_child_keys set_descendants_cat)

lemma set_tree_nodes:
  "set (tree_nodes e s) =
     insert [] ({[c] | c. c \<in> cats e} \<union> {[c, j] | c j. c \<in> cats e \<and> j \<in> jobs s c})"
  by (simp add: tree_nodes_def root_node_def set_descendants_root)

lemma tree_nodes_cong:
  "test_info_list s' = test_info_list s \<Longrightarrow> tree_nodes e s' = tree_nodes e s"
  using descendants_cong [of s' s e root_node] by (simp add: tree_nodes_def)

lemma tree_node_cases:
  assumes "p \<in> set (tree_nodes e s)"
  obtains "p = []" | c where "p = [c]" "c \<in> cats e"
  | c j where "p = [c, j]" "c \<in> cats e" "j \<in> jobs s c"
  using assms by (auto simp: set_tree_nodes)

lemma descendants_in_tree:
  "p \<in> set (tree_nodes e s) \<Longrightarrow> set (descendants e s p) \<subseteq> set (tree_nodes e s)"
  by (erule tree_node_cases)
    (auto simp: set_tree_nodes set_descendants_root set_descendants_cat descendants_leaf)

subsection \<open>The descent\<close>

lemma widgets_visit_self: "widgets (visit e b d s) d \<noteq> None"
  by (simp add: visit_def set_flagged_def update_w_def get_widget_def load_widget_def
      add_widget_def Let_def split: option.splits)

lemma widgets_visit_Some: "widgets s m \<noteq> None \<Longrightarrow> widgets (visit e b d s) m \<noteq> None"
  by (cases "m = d") (simp_all add: widgets_visit_self widgets_visit_other del: not_None_eq)

lemma widgets_fold_visit_Some:
  "widgets s m \<noteq> None \<Longrightarrow> widgets (fold (visit e b) ds s) m \<noteq> None"
  by (induction ds arbitrary: s) (simp_all add: widgets_visit_Some del: not_None_eq)

text \<open>
  C1. When every node below \<open>N\<close> is materialized, \<open>set_descendants_state\<close> with \<open>True\<close>
  leaves every node below \<open>N\<close> flagged, and with \<open>False\<close> leaves every one of them
  unflagged. On a leaf the call returns the state it was given.
\<close>

theorem set_descendants_state_forces_flag:
  assumes "\<forall>d \<in> set (descendants e s N). materialized s d"
  shows "(\<forall>d \<in> set (descendants e s N). is_flagged (set_descendants_state e N True s) d) \<and>
         (\<forall>d \<in> set (descendants e s N). \<not> is_flagged (set_descendants_state e N False s) d) \<and>
         (is_leaf N \<longrightarrow> set_descendants_state e N b s = s)"
proof -
  have nd: "\<forall>d \<in> set (descendants e s N). \<not> dead s d"
    using assms by (simp add: materialized_not_dead)
  have "set_descendants_state e N new_state s = fold (visit e new_state) (descendants e s N) s"
    for new_state
    using nd flatten(1) [of e s N new_state] by simp
  then have "is_flagged (set_descendants_state e N new_state s) d = new_state"
    if "d \<in> set (descendants e s N)" for d new_state
    using that by (simp add: is_flagged_fold_visit)
  moreover have "is_leaf N \<longrightarrow> set_descendants_state e N b s = s"
    by (simp add: set_descendants_state.simps [of e N])
  ultimately show ?thesis by simp
qed

theorem set_descendants_state_forces_flag_witness:
  "list_all (materialized state_AB) (descendants env_AB state_AB []) \<and>
   length (descendants env_AB state_AB []) = 5 \<and>
   list_all (is_flagged (set_descendants_state env_AB [] True
       (set_descendants_state env_AB [] False state_AB))) (descendants env_AB state_AB []) \<and>
   list_all (\<lambda>d. \<not> is_flagged (set_descendants_state env_AB [] False state_AB) d)
     (descendants env_AB state_AB [])"
proof -
  let ?s = "set_descendants_state env_AB [] False state_AB"
  have d: "descendants env_AB ?s [] = descendants env_AB state_AB []" by code_simp
  have h: "\<forall>d \<in> set (descendants env_AB state_AB []). materialized state_AB d" by code_simp
  have h': "\<forall>d \<in> set (descendants env_AB ?s []). materialized ?s d" by code_simp
  have n: "length (descendants env_AB state_AB []) = 5" by code_simp
  from set_descendants_state_forces_flag [OF h, of True]
    set_descendants_state_forces_flag [OF h', of True] h n
  show ?thesis by (simp add: list_all_iff d)
qed

subsection \<open>End to end\<close>

text \<open>
  C4. In the example session all nodes start included. Space on \<open>job1\<close> and on \<open>job2\<close>, then
  the finish key: category \<open>A\<close> is excluded, category \<open>B\<close> and the root stay included, and
  \<open>run\<close> returns \<open>{job3}\<close>. Space on \<open>job3\<close> alone, then the finish key: \<open>B\<close> is excluded,
  \<open>A\<close> and the root stay included, and \<open>run\<close> returns \<open>{job1, job2}\<close>.
\<close>

theorem end_to_end_selection:
  "(case main_loop env_AB
           [([''A'', ''job1''], '' ''), ([''A'', ''job2''], '' ''), ([''A'', ''job2''], ''T'')]
           (CategoryBrowser_init env_AB module_state) of
      Some (Inr s) \<Rightarrow>
        \<not> is_flagged s [''A''] \<and> is_flagged s [''B''] \<and> is_flagged s root_node
    | _ \<Rightarrow> False) \<and>
   (case run env_AB
           [([''A'', ''job1''], '' ''), ([''A'', ''job2''], '' ''), ([''A'', ''job2''], ''T'')]
           (CategoryBrowser_init env_AB module_state) of
      Some (Inr (chosen, s)) \<Rightarrow> chosen = {''job3''}
    | _ \<Rightarrow> False) \<and>
   (case main_loop env_AB [([''B'', ''job3''], '' ''), ([''B'', ''job3''], ''T'')]
           (CategoryBrowser_init env_AB module_state) of
      Some (Inr s) \<Rightarrow>
        \<not> is_flagged s [''B''] \<and> is_flagged s [''A''] \<and> is_flagged s root_node
    | _ \<Rightarrow> False) \<and>
   (case run env_AB [([''B'', ''job3''], '' ''), ([''B'', ''job3''], ''T'')]
           (CategoryBrowser_init env_AB module_state) of
      Some (Inr (chosen, s)) \<Rightarrow> chosen = {''job1'', ''job2''}
    | _ \<Rightarrow> False)"
  by code_simp

subsection \<open>Globals that the propagation leaves alone\<close>

lemma result_state_simps [simp]:
  "result_state (Inl (x, s)) = s" "result_state (Inr s) = s"
  by (simp_all add: result_state_def)

lemma set_flagged_globals [simp]:
  "show_job_ids (set_flagged p b s) = show_job_ids s"
  "test_info_list (set_flagged p b s) = test_info_list s"
  "widget_cache (set_flagged p b s) = widget_cache s"
  by (simp_all add: set_flagged_def)

lemma update_w_globals [simp]:
  "show_job_ids (result_state (update_w p s)) = show_job_ids s"
  "test_info_list (result_state (update_w p s)) = test_info_list s"
  "widget_cache (result_state (update_w p s)) = widget_cache s"
  by (simp_all add: update_w_def split: option.splits)

lemma update_w_Inr_globals:
  "update_w p s = Inr s' \<Longrightarrow> show_job_ids s' = show_job_ids s"
  "update_w p s = Inr s' \<Longrightarrow> test_info_list s' = test_info_list s"
  using update_w_globals(1) [of p s] update_w_globals(2) [of p s] by simp_all

lemma set_descendants_state_show_job_ids:
  "show_job_ids (set_descendants_state e p b s) = show_job_ids s"
  "show_job_ids (descend_children e p ks b s) = show_job_ids s"
proof (induction e p b s and e p ks b s rule: set_descendants_state_descend_children.induct)
  case (1 e p new_state s)
  then show ?case by (simp add: set_descendants_state.simps [of e p])
next
  case (2 e p new_state s)
  then show ?case by simp
next
  case (3 e p key keys new_state s)
  then show ?case
    by (auto simp: Let_def update_w_Inr_globals split: sum.splits)
qed

lemma any_child_flagged_show_job_ids:
  "show_job_ids (snd (any_child_flagged e p ks s)) = show_job_ids s"
  by (induction ks arbitrary: s) (simp_all add: Let_def)

lemma ancestors_all_show_job_ids:
  "show_job_ids (result_state (ancestors_all e q b s)) = show_job_ids s"
proof (induction e q b s rule: ancestors_all.induct)
  case (1 e new_state s)
  then show ?case by simp
next
  case (2 e parent new_state s)
  then show ?case
    by (auto simp: Let_def update_w_Inr_globals update_w_def split: sum.splits option.splits if_splits)
qed

lemma ancestors_unless_show_job_ids:
  "show_job_ids (result_state (ancestors_unless e q b s)) = show_job_ids s"
proof (induction e q b s rule: ancestors_unless.induct)
  case (1 e new_state s)
  then show ?case by simp
next
  case (2 e parent new_state s)
  obtain f s1 where a: "any_child_flagged e parent (get_child_keys e s parent) s = (f, s1)"
    by (cases "any_child_flagged e parent (get_child_keys e s parent) s")
  then have s1: "show_job_ids s1 = show_job_ids s"
    using any_child_flagged_show_job_ids [of e parent "get_child_keys e s parent" s] by simp
  show ?case
  proof (cases f)
    case True
    with a s1 show ?thesis by simp
  next
    case False
    let ?s2 = "set_flagged parent new_state (get_widget e parent s1)"
    show ?thesis
    proof (cases "update_w parent ?s2")
      case (Inl x)
      from update_w_globals(1) [of parent ?s2]
      have "show_job_ids (result_state (Inl x)) = show_job_ids ?s2"
        unfolding Inl .
      with Inl a False s1 show ?thesis by (cases x) (simp add: Let_def)
    next
      case (Inr s3)
      from False have "f = False" by simp
      with "2.IH" [OF a [symmetric] _ refl Inr] a s1 Inr show ?thesis
        by (simp add: Let_def update_w_Inr_globals(1) [OF Inr])
    qed
  qed
qed

lemma set_ancestors_state_show_job_ids:
  "show_job_ids (result_state (set_ancestors_state e p b s)) = show_job_ids s"
  by (simp add: set_ancestors_state_def ancestors_all_show_job_ids ancestors_unless_show_job_ids
      split: option.splits)

subsection \<open>The break of the descent\<close>

text \<open>Induction over the descent, one visit at a time.\<close>

lemma descent_induct:
  assumes node: "\<And>e p b s. (\<not> is_leaf p \<Longrightarrow> Q e p (get_child_keys e s p) b s) \<Longrightarrow> P e p b s"
    and nil: "\<And>e p b s. Q e p [] b s"
    and cons: "\<And>e p k ks b s.
      (\<not> dead s (p @ [k]) \<Longrightarrow> P e (p @ [k]) b (visit e b (p @ [k]) s)) \<Longrightarrow>
      (\<not> dead s (p @ [k]) \<Longrightarrow>
         Q e p ks b (set_descendants_state e (p @ [k]) b (visit e b (p @ [k]) s))) \<Longrightarrow>
      Q e p (k # ks) b s"
  shows "P e p b s" and "Q e p ks b s"
proof (induction e p b s and e p ks b s rule: set_descendants_state_descend_children.induct)
  case (1 e p new_state s)
  then show ?case by (intro node) simp
next
  case (2 e p new_state s)
  show ?case by (rule nil)
next
  case (3 e p key keys new_state s)
  show ?case
  proof (rule cons)
    assume nd: "\<not> dead s (p @ [key])"
    then have upd: "update_w (get_child_node p key)
        (set_flagged (get_child_node p key) new_state (get_widget e (get_child_node p key) s)) =
        Inr (visit e new_state (p @ [key]) s)"
      by (simp add: get_child_node_def update_w_visit)
    from "3.IH"(1) [OF refl refl upd]
    show "P e (p @ [key]) new_state (visit e new_state (p @ [key]) s)"
      by (simp add: get_child_node_def)
    from "3.IH"(2) [OF refl refl upd]
    show "Q e p keys new_state
        (set_descendants_state e (p @ [key]) new_state (visit e new_state (p @ [key]) s))"
      by (simp add: get_child_node_def)
  qed
qed

lemma descent_test_info_list:
  "test_info_list (set_descendants_state e p b s) = test_info_list s"
  "test_info_list (descend_children e p ks b s) = test_info_list s"
proof (induction e p b s and e p ks b s rule: descent_induct)
  case (1 e p b s)
  then show ?case by (simp add: set_descendants_state.simps [of e p])
next
  case (2 e p b s)
  show ?case by simp
next
  case (3 e p k ks b s)
  then show ?case
    by (simp add: descend_children_Cons del: descend_children.simps)
qed

lemma dead_set_flagged [simp]: "dead (set_flagged c b s) m = dead s m"
  by (auto simp: dead_def set_flagged_def split: option.splits)

lemma descent_dead:
  "dead (set_descendants_state e p b s) m = dead s m"
  "dead (descend_children e p ks b s) m = dead s m"
proof (induction e p b s and e p ks b s rule: descent_induct)
  case (1 e p b s)
  then show ?case by (simp add: set_descendants_state.simps [of e p])
next
  case (2 e p b s)
  show ?case by simp
next
  case (3 e p k ks b s)
  then show ?case
    by (simp add: descend_children_Cons del: descend_children.simps)
qed

lemma descent_frame:
  "m \<notin> set (descendants e s p) \<longrightarrow> widgets (set_descendants_state e p b s) m = widgets s m"
  "m \<notin> set (subtrees e s p ks) \<longrightarrow> widgets (descend_children e p ks b s) m = widgets s m"
proof (induction e p b s and e p ks b s rule: descent_induct)
  case (1 e p b s)
  then show ?case
    by (simp add: set_descendants_state.simps [of e p] descendants.simps [of e s p])
next
  case (2 e p b s)
  show ?case by simp
next
  case (3 e p k ks b s)
  let ?c = "p @ [k]"
  let ?s1 = "visit e b ?c s"
  let ?s2 = "set_descendants_state e ?c b ?s1"
  show ?case
  proof
    assume m: "m \<notin> set (subtrees e s p (k # ks))"
    show "widgets (descend_children e p (k # ks) b s) m = widgets s m"
    proof (cases "dead s ?c")
      case True
      with m show ?thesis
        by (simp add: descend_children_Cons set_flagged_def del: descend_children.simps)
    next
      case False
      have d1: "descendants e ?s1 ?c = descendants e s ?c"
        by (rule descendants_cong) simp
      have d2: "subtrees e ?s2 p ks = subtrees e s p ks"
        by (rule subtrees_cong) (simp add: descent_test_info_list)
      from m False 3 d1 d2 show ?thesis
        by (simp add: descend_children_Cons widgets_visit_other del: descend_children.simps)
    qed
  qed
qed

lemma descent_loaded:
  "widgets s m \<noteq> None \<longrightarrow> widgets (set_descendants_state e p b s) m \<noteq> None"
  "widgets s m \<noteq> None \<longrightarrow> widgets (descend_children e p ks b s) m \<noteq> None"
proof (induction e p b s and e p ks b s rule: descent_induct)
  case (1 e p b s)
  then show ?case by (simp add: set_descendants_state.simps [of e p])
next
  case (2 e p b s)
  show ?case by simp
next
  case (3 e p k ks b s)
  show ?case
  proof
    assume m: "widgets s m \<noteq> None"
    then have "widgets (visit e b (p @ [k]) s) m \<noteq> None"
      by (rule widgets_visit_Some)
    moreover from m have "widgets (set_flagged (p @ [k]) b s) m \<noteq> None"
      by (auto simp: set_flagged_def)
    ultimately show "widgets (descend_children e p (k # ks) b s) m \<noteq> None"
      using 3 by (simp add: descend_children_Cons del: descend_children.simps not_None_eq)
  qed
qed

lemma descend_children_split:
  "\<forall>k \<in> set ks. \<not> dead s (p @ [k]) \<Longrightarrow>
     descend_children e p (ks @ ks') b s = descend_children e p ks' b (descend_children e p ks b s)"
proof (induction ks arbitrary: s)
  case Nil
  then show ?case by simp
next
  case (Cons k ks)
  let ?s2 = "set_descendants_state e (p @ [k]) b (visit e b (p @ [k]) s)"
  from Cons.prems have "\<forall>k \<in> set ks. \<not> dead ?s2 (p @ [k])"
    by (simp add: descent_dead)
  then have "descend_children e p (ks @ ks') b ?s2 =
      descend_children e p ks' b (descend_children e p ks b ?s2)"
    by (rule Cons.IH)
  with Cons.prems show ?case
    by (simp add: descend_children_Cons del: descend_children.simps)
qed

text \<open>
  C5. Let the child under \<open>key\<close> be the first child of \<open>N\<close> whose widget is dead, so that
  \<^verbatim>\<open>update_w\<close> raises \<^verbatim>\<open>AttributeError\<close> on it. \<open>set_descendants_state\<close> returns a state
  (it raises nothing): the state reached after the loop over the children before \<open>key\<close>,
  with the flag of the dead child written. The dead child has the new flag; every node
  outside the subtrees of the earlier children, so the nodes below the dead child and the
  children after it, is as it was.
\<close>

theorem set_descendants_state_stops_at_dead_child:
  assumes "\<not> is_leaf N"
    and "get_child_keys e s N = before @ key # after"
    and "\<forall>k \<in> set before. \<not> dead s (get_child_node N k)"
    and "dead s (get_child_node N key)"
  shows "set_descendants_state e N b s =
           set_flagged (get_child_node N key) b (descend_children e N before b s) \<and>
         is_flagged (set_descendants_state e N b s) (get_child_node N key) = b \<and>
         (\<forall>m. m \<noteq> get_child_node N key \<and> m \<notin> set (subtrees e s N before) \<longrightarrow>
              widgets (set_descendants_state e N b s) m = widgets s m)"
proof -
  let ?c = "get_child_node N key"
  let ?s1 = "descend_children e N before b s"
  have nd: "\<forall>k \<in> set before. \<not> dead s (N @ [k])"
    using assms(3) by (simp add: get_child_node_def)
  have "dead ?s1 ?c"
    using assms(4) by (simp add: descent_dead)
  then have "descend_children e N (key # after) b ?s1 = set_flagged ?c b ?s1"
    by (simp add: descend_children_Cons get_child_node_def del: descend_children.simps)
  then have eq: "set_descendants_state e N b s = set_flagged ?c b ?s1"
    using assms(1,2) descend_children_split [OF nd, of e "key # after" b]
    by (simp add: set_descendants_state.simps [of e N])
  from assms(4) have "widgets s ?c \<noteq> None"
    by (auto simp: dead_def split: option.splits)
  then have "widgets ?s1 ?c \<noteq> None"
    using descent_loaded(2) [of s ?c e N before b] by blast
  then have fl: "is_flagged (set_flagged ?c b ?s1) ?c = b"
    by (auto simp: is_flagged_def set_flagged_def)
  have "widgets (set_flagged ?c b ?s1) m = widgets s m"
    if "m \<noteq> ?c" "m \<notin> set (subtrees e s N before)" for m
    using that descent_frame(2) [of m e s N before b] by (simp add: set_flagged_def)
  with fl show ?thesis unfolding eq by blast
qed

theorem set_descendants_state_stops_at_dead_child_witness:
  "\<not> is_leaf [''A''] \<and>
   get_child_keys env_AB state_dead [''A''] = [] @ ''job1'' # [''job2''] \<and>
   dead state_dead (get_child_node [''A''] ''job1'') \<and>
   set_descendants_state env_AB [''A''] False state_dead =
     set_flagged [''A'', ''job1''] False state_dead \<and>
   \<not> is_flagged (set_descendants_state env_AB [''A''] False state_dead) [''A'', ''job1''] \<and>
   is_flagged (set_descendants_state env_AB [''A''] False state_dead) [''A'', ''job2'']"
proof -
  have h1: "\<not> is_leaf [''A'']" by simp
  have h2: "get_child_keys env_AB state_dead [''A''] = [] @ ''job1'' # [''job2'']" by code_simp
  have h3: "\<forall>k \<in> set []. \<not> dead state_dead (get_child_node [''A''] k)" by simp
  have h4: "dead state_dead (get_child_node [''A''] ''job1'')" by code_simp
  have f: "is_flagged state_dead [''A'', ''job2'']" by code_simp
  note stop = set_descendants_state_stops_at_dead_child [OF h1 h2 h3 h4, of False]
  have c1: "set_descendants_state env_AB [''A''] False state_dead =
      set_flagged [''A'', ''job1''] False state_dead"
    using stop [THEN conjunct1] by (simp add: get_child_node_def)
  have c2:
    "\<not> is_flagged (set_descendants_state env_AB [''A''] False state_dead) [''A'', ''job1'']"
    using stop [THEN conjunct2, THEN conjunct1] by (simp add: get_child_node_def)
  have "widgets (set_descendants_state env_AB [''A''] False state_dead) [''A'', ''job2''] =
      widgets state_dead [''A'', ''job2'']"
    using stop [THEN conjunct2, THEN conjunct2, THEN spec, of "[''A'', ''job2'']"]
    by (simp add: get_child_node_def)
  with f have c3:
    "is_flagged (set_descendants_state env_AB [''A''] False state_dead) [''A'', ''job2'']"
    unfolding is_flagged_def by simp
  show ?thesis
    by (intro conjI) (rule h1, rule h2, rule h4, rule c1, rule c2, rule c3)
qed

subsection \<open>The display mode key\<close>

lemma is_flagged_without_labels: "is_flagged (without_labels s) m = is_flagged s m"
  by (simp add: is_flagged_def without_labels_def split: option.splits)

lemma without_labels_relabel:
  "widgets s w = Some x \<Longrightarrow>
     without_labels (s\<lparr>widgets := (widgets s)(w \<mapsto> x\<lparr>label := l\<rparr>)\<rparr>) = without_labels s"
  by (rule state.equality) (auto simp: without_labels_def fun_eq_iff)

lemma reload_labels_without_labels:
  "without_labels (result_state (reload_labels e ws s)) = without_labels s"
proof (induction ws arbitrary: s)
  case Nil
  then show ?case by simp
next
  case (Cons w ws)
  then show ?case
    by (auto simp: without_labels_relabel split: option.splits)
qed

lemma reload_labels_show_job_ids:
  "show_job_ids (result_state (reload_labels e ws s)) = show_job_ids s"
proof (induction ws arbitrary: s)
  case Nil
  then show ?case by simp
next
  case (Cons w ws)
  then show ?case
    by (auto split: option.splits)
qed

lemma without_labels_mode [simp]:
  "without_labels (s\<lparr>show_job_ids := b\<rparr>) = without_labels s"
  by (simp add: without_labels_def)

text \<open>
  C9. The keys \<open>i\<close> and \<open>I\<close> change label texts and the display mode and nothing else:
  whether the handler returns or raises, the state it leaves agrees with the state before on
  everything but labels and mode, so every node keeps its flag. When it returns, the key is
  handled and the mode is flipped.
\<close>

theorem display_mode_key_keeps_flags:
  assumes "key = ''i'' \<or> key = ''I''"
  shows "case unhandled_keys e p key s of
           Inl (x, s') \<Rightarrow>
             without_labels s' = without_labels s \<and> (\<forall>m. is_flagged s' m = is_flagged s m)
         | Inr (r, s') \<Rightarrow>
             r = None \<and> show_job_ids s' = (\<not> show_job_ids s) \<and>
             without_labels s' = without_labels s \<and> (\<forall>m. is_flagged s' m = is_flagged s m)"
proof (cases "widgets s p")
  case None
  then show ?thesis by (simp add: unhandled_keys_def)
next
  case (Some w)
  let ?s1 = "s\<lparr>show_job_ids := \<not> show_job_ids s\<rparr>"
  let ?r = "reload_labels e (map snd (widget_cache ?s1)) ?s1"
  have key: "key \<noteq> '' ''" "key \<noteq> ''enter''"
    using assms by auto
  have u: "unhandled_keys e p key s = (case ?r of Inl x \<Rightarrow> Inl x | Inr s2 \<Rightarrow> Inr (None, s2))"
    using Some key assms by (simp add: unhandled_keys_def Let_def)
  have w: "without_labels (result_state ?r) = without_labels s"
    by (simp add: reload_labels_without_labels)
  then have f: "is_flagged (result_state ?r) m = is_flagged s m" for m
    using is_flagged_without_labels [of "result_state ?r" m] is_flagged_without_labels [of s m]
    by simp
  have m: "show_job_ids (result_state ?r) = (\<not> show_job_ids s)"
    by (simp add: reload_labels_show_job_ids)
  show ?thesis
  proof (cases ?r)
    case (Inl x)
    with u w f show ?thesis by (cases x) simp
  next
    case (Inr s2)
    with u w f m show ?thesis by simp
  qed
qed

theorem display_mode_key_keeps_flags_witness:
  "(case unhandled_keys env_AB [] ''i'' state_AB of
      Inl (x, s') \<Rightarrow> False
    | Inr (r, s') \<Rightarrow>
        r = None \<and> show_job_ids s' \<and> without_labels s' = without_labels state_AB \<and>
        list_all (\<lambda>m. is_flagged s' m = is_flagged state_AB m) (tree_nodes env_AB state_AB) \<and>
        map_option label (widgets state_AB [''A'', ''job1'']) = Some ''Summary of job1'' \<and>
        map_option label (widgets s' [''A'', ''job1'']) = Some ''job1'')"
proof -
  have a: "case unhandled_keys env_AB [] ''i'' state_AB of
      Inl (x, s') \<Rightarrow> False
    | Inr (r, s') \<Rightarrow>
        show_job_ids s' \<and>
        map_option label (widgets state_AB [''A'', ''job1'']) = Some ''Summary of job1'' \<and>
        map_option label (widgets s' [''A'', ''job1'']) = Some ''job1''"
    by code_simp
  have k: "''i'' = ''i'' \<or> ''i'' = ''I''" by simp
  show ?thesis
    using a display_mode_key_keeps_flags [OF k, where e = env_AB and p = "[]" and s = state_AB]
    by (cases "unhandled_keys env_AB [] ''i'' state_AB") (auto simp: list_all_iff)
qed

subsection \<open>The end of a session\<close>

lemma unhandled_keys_show_job_ids:
  assumes "unhandled_keys e p key s = Inr (r, s')"
  shows "show_job_ids s' = (if key = ''i'' \<or> key = ''I'' then \<not> show_job_ids s else show_job_ids s)"
    and "r = None \<or> r = Some key"
    and "key = ''t'' \<or> key = ''T'' \<Longrightarrow> r = Some key"
proof -
  from assms obtain w where w: "widgets s p = Some w"
    by (auto simp: unhandled_keys_def split: option.splits)
  let ?s1 = "set_flagged p (\<not> flagged w) s"
  let ?s2 = "set_descendants_state e p (is_flagged ?s1 p) ?s1"
  let ?a = "set_ancestors_state e p (is_flagged ?s2 p) ?s2"
  have s2: "show_job_ids ?s2 = show_job_ids s"
    by (simp add: set_descendants_state_show_job_ids)
  have sp: "show_job_ids s' = show_job_ids s" if "key = '' ''"
  proof -
    from assms w that obtain s3 where s3: "?a = Inr s3" and s4: "update_w p s3 = Inr s'"
      by (auto simp: unhandled_keys_def Let_def split: sum.splits)
    from set_ancestors_state_show_job_ids [of e p "is_flagged ?s2 p" ?s2] s3 s2
    have "show_job_ids s3 = show_job_ids s" by simp
    with update_w_Inr_globals(1) [OF s4] show ?thesis by simp
  qed
  have en: "show_job_ids s' = show_job_ids s" if "key \<noteq> '' ''" "\<not> is_leaf p \<and> key = ''enter''"
    using assms w that
    by (auto simp: unhandled_keys_def Let_def update_expanded_icon_def split: sum.splits if_splits)
  have md: "show_job_ids s' = (\<not> show_job_ids s)" if "key = ''i'' \<or> key = ''I''"
  proof -
    let ?s1 = "s\<lparr>show_job_ids := \<not> show_job_ids s\<rparr>"
    from that have "key \<noteq> '' ''" "key \<noteq> ''enter''" by auto
    with assms w that have "reload_labels e (map snd (widget_cache ?s1)) ?s1 = Inr s'"
      by (auto simp: unhandled_keys_def Let_def split: sum.splits)
    with reload_labels_show_job_ids [of e "map snd (widget_cache ?s1)" ?s1]
    show ?thesis by simp
  qed
  have ot: "s' = s" if "key \<noteq> '' ''" "\<not> (\<not> is_leaf p \<and> key = ''enter'')" "\<not> (key = ''i'' \<or> key = ''I'')"
    using assms w that by (auto simp: unhandled_keys_def)
  show "show_job_ids s' = (if key = ''i'' \<or> key = ''I'' then \<not> show_job_ids s else show_job_ids s)"
    using sp en md ot by (cases "key = '' ''"; cases "\<not> is_leaf p \<and> key = ''enter''") auto
  show "r = None \<or> r = Some key"
    using assms w by (auto simp: unhandled_keys_def Let_def split: sum.splits if_splits)
  show "r = Some key" if "key = ''t'' \<or> key = ''T''"
    using assms w that by (auto simp: unhandled_keys_def Let_def split: sum.splits if_splits)
qed

lemma main_loop_show_job_ids:
  "main_loop e evs s = Some (Inr s') \<Longrightarrow>
     show_job_ids s' = (if even (mode_presses evs) then show_job_ids s else \<not> show_job_ids s)"
proof (induction evs arbitrary: s)
  case Nil
  then show ?case by simp
next
  case (Cons ev evs)
  obtain p key where ev: "ev = (p, key)" by (cases ev)
  let ?s0 = "get_widget e p s"
  from Cons.prems ev obtain r s1 where u: "unhandled_keys e p key ?s0 = Inr (r, s1)"
    by (cases "unhandled_keys e p key ?s0") (auto split: sum.splits)
  note k = unhandled_keys_show_job_ids [OF u]
  show ?case
  proof (cases "key = ''t'' \<or> key = ''T''")
    case True
    with k(3) have "r = Some key" by simp
    with Cons.prems ev u True have "s' = s1" by auto
    with k(1) True ev show ?thesis by (auto simp: mode_presses_def)
  next
    case False
    with k(2) Cons.prems ev u have "main_loop e evs s1 = Some (Inr s')"
      by auto
    then have "show_job_ids s' =
        (if even (mode_presses evs) then show_job_ids s1 else \<not> show_job_ids s1)"
      by (rule Cons.IH)
    with k(1) False ev show ?thesis by (auto simp: mode_presses_def)
  qed
qed

text \<open>
  C8, as amended. When \<open>run\<close> returns, the widget cache and the job list are empty.
  \<open>show_job_ids\<close> is not reset: it is the value the session started with, flipped once for
  every \<open>i\<close> or \<open>I\<close> key pressed before the finish key.
\<close>

theorem run_leaves_mode:
  assumes "run e evs s = Some (Inr (chosen, s'))"
  shows "widget_cache s' = [] \<and> test_info_list s' = [] \<and>
         show_job_ids s' = (if even (mode_presses evs) then show_job_ids s else \<not> show_job_ids s)"
proof -
  from assms obtain s1 where m: "main_loop e evs s = Some (Inr s1)"
    and s': "s' = s1\<lparr>widget_cache := [], test_info_list := []\<rparr>"
    by (auto simp: run_def split: option.splits sum.splits)
  from main_loop_show_job_ids [OF m] s' show ?thesis by simp
qed

theorem run_leaves_mode_witness:
  "(case run env_AB [([''A''], ''i''), ([''A''], ''I''), ([''A''], ''i''), ([], ''T'')] state_AB of
      Some (Inr (chosen, s')) \<Rightarrow>
        widget_cache s' = [] \<and> test_info_list s' = [] \<and> show_job_ids s' \<and>
        \<not> show_job_ids state_AB
    | _ \<Rightarrow> False)"
proof -
  let ?evs = "[([''A''], ''i''), ([''A''], ''I''), ([''A''], ''i''), ([], ''T'')]"
  have a: "case run env_AB ?evs state_AB of
      Some (Inr (chosen, s')) \<Rightarrow> \<not> show_job_ids state_AB | _ \<Rightarrow> False"
    by code_simp
  have n: "mode_presses ?evs = 3" by (simp add: mode_presses_def)
  show ?thesis
  proof (cases "run env_AB ?evs state_AB")
    case None
    with a show ?thesis by simp
  next
    case (Some r)
    show ?thesis
    proof (cases r)
      case (Inl x)
      with a Some show ?thesis by simp
    next
      case (Inr y)
      obtain chosen s' where y: "y = (chosen, s')" by (cases y)
      from run_leaves_mode [of env_AB ?evs state_AB chosen s'] Some Inr y a n
      show ?thesis by simp
    qed
  qed
qed

text \<open>C8 as stated fails: after one \<open>i\<close> key and the finish key, \<open>run\<close> returns with
  \<open>show_job_ids\<close> true.\<close>

theorem mode_not_reset_counterexample:
  "(case run env_AB [([], ''i''), ([], ''T'')] (CategoryBrowser_init env_AB module_state) of
      Some (Inr (chosen, s')) \<Rightarrow> show_job_ids s'
    | _ \<Rightarrow> False)"
  by code_simp

subsection \<open>The test plan picker\<close>

lemma length_only_button [simp]: "length (only_button n i) = n"
  by (simp add: only_button_def)

lemma length_set_state_True [simp]: "length (set_state_True i g) = length g"
  by (simp add: set_state_True_def)

lemma set_state_True_radio:
  assumes "radio_ok g" and "i < length g"
  shows "set_state_True i g = only_button (length g) i"
proof (cases "g ! i")
  case False
  then show ?thesis by (simp add: set_state_True_def only_button_def)
next
  case True
  have "g \<noteq> replicate (length g) False"
  proof
    assume "g = replicate (length g) False"
    then have "g ! i = replicate (length g) False ! i" by simp
    with True assms(2) show False by simp
  qed
  with assms obtain i' where i': "i' < length g" and g: "g = only_button (length g) i'"
    by (auto simp: radio_ok_def)
  from g have "g ! i = only_button (length g) i' ! i" by simp
  with True assms(2) have "i' = i"
    by (simp add: only_button_def)
  with g True show ?thesis by (simp add: set_state_True_def)
qed

lemma radio_ok_set_state_True:
  "radio_ok g \<Longrightarrow> i < length g \<Longrightarrow> radio_ok (set_state_True i g)"
  by (simp add: set_state_True_radio) (auto simp: radio_ok_def)

lemma plan_loop_no_activation:
  "\<forall>(f, k) \<in> set evs. \<not> (cm k = Some ''activate'' \<and> f < length g) \<Longrightarrow> cm ''enter'' = None \<Longrightarrow>
     plan_loop cm (evs @ (f0, ''enter'') # rest) g = Some g"
  by (induction evs) auto

lemma plan_loop_no_enter:
  "\<forall>(f, k) \<in> set evs. k \<noteq> ''enter'' \<Longrightarrow> radio_ok g \<Longrightarrow>
     \<exists>g'. length g' = length g \<and> radio_ok g' \<and>
       plan_loop cm (evs @ evs') g = plan_loop cm evs' g'"
proof (induction evs arbitrary: g)
  case Nil
  then show ?case by auto
next
  case (Cons ev evs)
  obtain f k where ev: "ev = (f, k)" by (cases ev)
  show ?case
  proof (cases "cm k = Some ''activate'' \<and> f < length g")
    case True
    with Cons.prems have "radio_ok (set_state_True f g)"
      by (simp add: radio_ok_set_state_True)
    with Cons.IH [of "set_state_True f g"] Cons.prems(1) True ev show ?thesis
      by auto
  next
    case False
    with Cons.IH [of g] Cons.prems ev show ?thesis by auto
  qed
qed

lemma find_only_button:
  "i < n \<Longrightarrow> find (\<lambda>j. only_button n i ! j) [0..<n] = Some i"
  by (auto simp: find_Some_iff only_button_def intro!: exI [of _ i])

lemma find_replicate_False: "find (\<lambda>j. replicate n False ! j) [0..<n] = None"
  by (simp add: find_None_iff)

lemma radio_ok_replicate: "radio_ok (replicate n False)"
  by (simp add: radio_ok_def)

text \<open>
  A call that finds \<open>enter\<close> bound, as the first call in a process does: when no key before
  the first \<open>enter\<close> activates a button, the picker returns \<^verbatim>\<open>None\<close>; when \<open>key\<close> is the
  last key before the first \<open>enter\<close> to activate a button, and the button is \<open>i\<close>, it
  returns \<open>i\<close>. Either way it leaves the command map without \<open>enter\<close>.
\<close>

theorem TestPlanBrowser_returns:
  assumes "cm ''enter'' \<noteq> None"
  shows
   "((\<forall>(f, k) \<in> set evs.
        \<not> (k \<noteq> ''enter'' \<and> cm k = Some ''activate'' \<and> f < length test_plan_list)) \<longrightarrow>
      TestPlanBrowser title test_plan_list None (evs @ (f0, ''enter'') # rest) cm =
        Some (Inr (None, cm(''enter'' := None)))) \<and>
    (i < length test_plan_list \<and> key \<noteq> ''enter'' \<and> cm key = Some ''activate'' \<and>
     (\<forall>(f, k) \<in> set evs1. k \<noteq> ''enter'') \<and>
     (\<forall>(f, k) \<in> set evs2.
        \<not> (k \<noteq> ''enter'' \<and> cm k = Some ''activate'' \<and> f < length test_plan_list)) \<longrightarrow>
      TestPlanBrowser title test_plan_list None
        (evs1 @ (i, key) # evs2 @ (f0, ''enter'') # rest) cm =
        Some (Inr (Some i, cm(''enter'' := None))))"
proof (intro conjI impI)
  let ?n = "length test_plan_list"
  let ?cm = "cm(''enter'' := None)"
  have g0: "map (\<lambda>txt. False) test_plan_list = replicate ?n False"
    by (simp add: map_replicate_const)
  from assms obtain c where c: "cm ''enter'' = Some c" by auto
  have e: "?cm ''enter'' = None" by simp
  {
    assume "\<forall>(f, k) \<in> set evs. \<not> (k \<noteq> ''enter'' \<and> cm k = Some ''activate'' \<and> f < ?n)"
    then have "\<forall>(f, k) \<in> set evs.
        \<not> (?cm k = Some ''activate'' \<and> f < length (replicate ?n False))"
      by auto
    then have "plan_loop ?cm (evs @ (f0, ''enter'') # rest) (replicate ?n False) =
        Some (replicate ?n False)"
      using e by (rule plan_loop_no_activation)
    then show "TestPlanBrowser title test_plan_list None (evs @ (f0, ''enter'') # rest) cm =
        Some (Inr (None, ?cm))"
      by (simp add: TestPlanBrowser_def g0 c find_replicate_False)
  }
  {
    assume H: "i < ?n \<and> key \<noteq> ''enter'' \<and> cm key = Some ''activate'' \<and>
      (\<forall>(f, k) \<in> set evs1. k \<noteq> ''enter'') \<and>
      (\<forall>(f, k) \<in> set evs2. \<not> (k \<noteq> ''enter'' \<and> cm k = Some ''activate'' \<and> f < ?n))"
    then obtain g' where g': "length g' = ?n" "radio_ok g'"
      and "plan_loop ?cm (evs1 @ (i, key) # evs2 @ (f0, ''enter'') # rest) (replicate ?n False) =
        plan_loop ?cm ((i, key) # evs2 @ (f0, ''enter'') # rest) g'"
      using plan_loop_no_enter [of evs1 "replicate ?n False" ?cm
          "(i, key) # evs2 @ (f0, ''enter'') # rest"]
      by (auto simp: radio_ok_replicate)
    moreover have "plan_loop ?cm ((i, key) # evs2 @ (f0, ''enter'') # rest) g' =
        plan_loop ?cm (evs2 @ (f0, ''enter'') # rest) (only_button ?n i)"
      using H g' by (simp add: set_state_True_radio)
    moreover have "\<forall>(f, k) \<in> set evs2.
        \<not> (?cm k = Some ''activate'' \<and> f < length (only_button ?n i))"
      using H by auto
    then have "plan_loop ?cm (evs2 @ (f0, ''enter'') # rest) (only_button ?n i) =
        Some (only_button ?n i)"
      using e by (rule plan_loop_no_activation)
    ultimately show "TestPlanBrowser title test_plan_list None
        (evs1 @ (i, key) # evs2 @ (f0, ''enter'') # rest) cm = Some (Inr (Some i, ?cm))"
      using H by (simp add: TestPlanBrowser_def g0 c find_only_button)
  }
qed

theorem TestPlanBrowser_returns_witness:
  "urwid_keys ''enter'' \<noteq> None \<and>
   TestPlanBrowser ''Select test plan'' [''smoke'', ''full'', ''stress''] None
     ([(0, ''down'')] @ (1, ''enter'') # []) urwid_keys =
     Some (Inr (None, urwid_keys(''enter'' := None))) \<and>
   TestPlanBrowser ''Select test plan'' [''smoke'', ''full'', ''stress''] None
     ([(0, '' ''), (0, ''down'')] @ (1, '' '') # [(1, ''down'')] @ (2, ''enter'') # [])
     urwid_keys =
     Some (Inr (Some 1, urwid_keys(''enter'' := None)))"
proof -
  have h: "urwid_keys ''enter'' \<noteq> None" by (simp add: urwid_keys_def)
  have a: "\<forall>(f, k) \<in> set [(0::nat, ''down'')].
      \<not> (k \<noteq> ''enter'' \<and> urwid_keys k = Some ''activate'' \<and>
         f < length [''smoke'', ''full'', ''stress''])"
    by (simp add: urwid_keys_def)
  have b: "1 < length [''smoke'', ''full'', ''stress''] \<and> '' '' \<noteq> ''enter'' \<and>
      urwid_keys '' '' = Some ''activate'' \<and>
      (\<forall>(f, k) \<in> set [(0::nat, '' ''), (0, ''down'')]. k \<noteq> ''enter'') \<and>
      (\<forall>(f, k) \<in> set [(1::nat, ''down'')].
         \<not> (k \<noteq> ''enter'' \<and> urwid_keys k = Some ''activate'' \<and>
            f < length [''smoke'', ''full'', ''stress'']))"
    by (simp add: urwid_keys_def)
  have c1: "TestPlanBrowser ''Select test plan'' [''smoke'', ''full'', ''stress''] None
     ([(0, ''down'')] @ (1, ''enter'') # []) urwid_keys =
     Some (Inr (None, urwid_keys(''enter'' := None)))"
    by (rule TestPlanBrowser_returns [where cm = urwid_keys
          and test_plan_list = "[''smoke'', ''full'', ''stress'']"
          and evs = "[(0, ''down'')]" and ?f0.0 = 1 and rest = "[]",
          OF h, THEN conjunct1, THEN mp, OF a])
  have c2: "TestPlanBrowser ''Select test plan'' [''smoke'', ''full'', ''stress''] None
     ([(0, '' ''), (0, ''down'')] @ (1, '' '') # [(1, ''down'')] @ (2, ''enter'') # [])
     urwid_keys =
     Some (Inr (Some 1, urwid_keys(''enter'' := None)))"
    by (rule TestPlanBrowser_returns [where cm = urwid_keys
          and test_plan_list = "[''smoke'', ''full'', ''stress'']"
          and i = 1 and key = "'' ''" and ?evs1.0 = "[(0, '' ''), (0, ''down'')]"
          and ?evs2.0 = "[(1, ''down'')]" and ?f0.0 = 2 and rest = "[]",
          OF h, THEN conjunct2, THEN mp, OF b])
  show ?thesis by (intro conjI) (rule h, rule c1, rule c2)
qed

lemma TestPlanBrowser_unbinds_enter:
  "TestPlanBrowser title test_plan_list sel evs cm = Some (Inr (r, cm')) \<Longrightarrow>
     cm' = cm(''enter'' := None)"
  by (auto simp: TestPlanBrowser_def Let_def split: option.splits sum.splits if_splits)

lemma TestPlanBrowser_KeyError:
  "cm ''enter'' = None \<Longrightarrow>
     TestPlanBrowser title test_plan_list None evs cm = Some (Inl (KeyError, cm))"
  by (simp add: TestPlanBrowser_def)

text \<open>
  C10. The claim holds of a call that finds \<open>enter\<close> bound in urwid's command map
  (\<open>TestPlanBrowser_returns\<close>), and of no call after it: a call that returns has deleted
  \<open>enter\<close> from the command map of the process, so the next call, whatever its title, its
  plans and the keys pressed, raises \<^verbatim>\<open>KeyError\<close> at line 306, before its main loop, and
  returns neither an index nor \<^verbatim>\<open>None\<close>.
\<close>

theorem TestPlanBrowser_raises_after_first_call:
  assumes "TestPlanBrowser title0 test_plan_list0 sel0 evs0 cm0 = Some (Inr (r, cm))"
  shows "TestPlanBrowser title test_plan_list None evs cm = Some (Inl (KeyError, cm))"
proof -
  from assms have "cm = cm0(''enter'' := None)" by (rule TestPlanBrowser_unbinds_enter)
  then have "cm ''enter'' = None" by simp
  then show ?thesis by (rule TestPlanBrowser_KeyError)
qed

theorem TestPlanBrowser_raises_after_first_call_witness:
  "TestPlanBrowser ''Select test plan'' [''smoke'', ''full'', ''stress''] None
     [(1, '' ''), (1, ''enter'')] urwid_keys =
     Some (Inr (Some 1, urwid_keys(''enter'' := None))) \<and>
   TestPlanBrowser ''Select test plan'' [''smoke'', ''full'', ''stress''] None
     [(1, '' ''), (1, ''enter'')] (urwid_keys(''enter'' := None)) =
     Some (Inl (KeyError, urwid_keys(''enter'' := None)))"
proof -
  have first: "TestPlanBrowser ''Select test plan'' [''smoke'', ''full'', ''stress''] None
     [(1, '' ''), (1, ''enter'')] urwid_keys =
     Some (Inr (Some 1, urwid_keys(''enter'' := None)))"
    by (simp add: TestPlanBrowser_def urwid_keys_def set_state_True_def)
  have second: "TestPlanBrowser ''Select test plan'' [''smoke'', ''full'', ''stress''] None
     [(1, '' ''), (1, ''enter'')] (urwid_keys(''enter'' := None)) =
     Some (Inl (KeyError, urwid_keys(''enter'' := None)))"
    by (rule TestPlanBrowser_raises_after_first_call [OF first])
  show ?thesis by (intro conjI) (rule first, rule second)
qed

subsection \<open>Building the browser\<close>

lemma set_update_subset: "set (AList.update k v al) \<subseteq> insert (k, v) (set al)"
  by (induction al) auto

lemma widget_cache_visit:
  "widget_cache (visit e b d s) =
     (if widgets s d = None \<and> is_leaf d then AList.update (get_key d) d (widget_cache s)
      else widget_cache s)"
  by (simp add: visit_def set_flagged_def update_w_def get_widget_def load_widget_def
      add_widget_def Let_def split: option.splits)

lemma widgets_visit_new:
  "widgets s d = None \<Longrightarrow>
     \<exists>w. widgets (visit e True d s) d = Some w \<and> flagged w \<and> live w"
  by (simp add: visit_def set_flagged_def update_w_def get_widget_def load_widget_def
      add_widget_def FlagUnitWidget_init_def Let_def)

lemma widgets_visit_old:
  "widgets s d = Some w \<Longrightarrow> live w \<Longrightarrow>
     widgets (visit e b d s) d = Some (w\<lparr>flagged := b, box := b\<rparr>)"
  by (simp add: visit_def set_flagged_def update_w_def get_widget_def Let_def)

lemma sound_visit: "sound s \<Longrightarrow> sound (visit e True d s)"
  unfolding sound_def
proof (intro allI impI)
  fix m w
  assume H: "\<forall>m w. widgets s m = Some w \<longrightarrow> flagged w \<and> live w"
    and w: "widgets (visit e True d s) m = Some w"
  show "flagged w \<and> live w"
  proof (cases "m = d")
    case False
    with w H show ?thesis by (simp add: widgets_visit_other)
  next
    case True
    show ?thesis
    proof (cases "widgets s d")
      case None
      with widgets_visit_new [of s d e] w True show ?thesis by auto
    next
      case (Some x)
      with H have "live x" by blast
      with widgets_visit_old [OF Some this, of e True] w True show ?thesis by auto
    qed
  qed
qed

lemma sound_fold_visit: "sound s \<Longrightarrow> sound (fold (visit e True) ds s)"
  by (induction ds arbitrary: s) (simp_all add: sound_visit)

lemma widgets_fold_visit_loaded:
  "d \<in> set ds \<Longrightarrow> widgets (fold (visit e b) ds s) d \<noteq> None"
proof (induction ds arbitrary: s)
  case Nil
  then show ?case by simp
next
  case (Cons a ds)
  show ?case
  proof (cases "d = a")
    case True
    have "widgets (visit e b a s) a \<noteq> None" by (rule widgets_visit_self)
    then have "widgets (fold (visit e b) ds (visit e b a s)) a \<noteq> None"
      by (rule widgets_fold_visit_Some)
    with True show ?thesis by simp
  next
    case False
    with Cons show ?thesis by simp
  qed
qed

lemma bound_visit: "bound s \<Longrightarrow> bound (visit e b d s)"
  unfolding bound_def
proof (intro allI impI)
  fix d'
  assume H: "\<forall>d. is_leaf d \<and> widgets s d \<noteq> None \<longrightarrow>
      (\<exists>m. map_of (widget_cache s) (get_key d) = Some m \<and> widgets s m \<noteq> None)"
    and d': "is_leaf d' \<and> widgets (visit e b d s) d' \<noteq> None"
  let ?s' = "visit e b d s"
  show "\<exists>m. map_of (widget_cache ?s') (get_key d') = Some m \<and> widgets ?s' m \<noteq> None"
  proof (cases "widgets s d = None \<and> is_leaf d")
    case True
    then have c: "map_of (widget_cache ?s') = (map_of (widget_cache s))(get_key d \<mapsto> d)"
      by (simp add: widget_cache_visit AList.update_conv')
    show ?thesis
    proof (cases "get_key d' = get_key d")
      case True
      with c show ?thesis by (simp add: widgets_visit_self del: not_None_eq)
    next
      case False
      then have "d' \<noteq> d" by auto
      with d' have "widgets s d' \<noteq> None" by (simp add: widgets_visit_other)
      with H d' obtain m where "map_of (widget_cache s) (get_key d') = Some m"
        and "widgets s m \<noteq> None" by blast
      with c False show ?thesis by (simp add: widgets_visit_Some del: not_None_eq)
    qed
  next
    case False
    then have c: "widget_cache ?s' = widget_cache s"
      unfolding widget_cache_visit by (simp only: if_False)
    have "widgets s d' \<noteq> None"
    proof (cases "d' = d")
      case True
      with False d' show ?thesis by auto
    next
      case False
      with d' show ?thesis by (simp add: widgets_visit_other)
    qed
    with H d' obtain m where "map_of (widget_cache s) (get_key d') = Some m"
      and "widgets s m \<noteq> None" by blast
    with c show ?thesis by (simp add: widgets_visit_Some del: not_None_eq)
  qed
qed

lemma bound_fold_visit: "bound s \<Longrightarrow> bound (fold (visit e b) ds s)"
  by (induction ds arbitrary: s) (simp_all add: bound_visit)

lemma widget_cache_fold_visit:
  "set (widget_cache (fold (visit e b) ds s)) \<subseteq>
     set (widget_cache s) \<union> {(get_key d, d) | d. d \<in> set ds \<and> is_leaf d}"
proof (induction ds arbitrary: s)
  case Nil
  then show ?case by simp
next
  case (Cons a ds)
  have "set (widget_cache (visit e b a s)) \<subseteq>
      set (widget_cache s) \<union> {(get_key d, d) | d. d = a \<and> is_leaf d}"
    using set_update_subset [of "get_key a" a "widget_cache s"]
    by (auto simp: widget_cache_visit)
  with Cons.IH [of "visit e b a s"] show ?case by auto
qed

lemma init_root_simps:
  "test_info_list (init_root e g) = init_jobs e"
  "widget_cache (init_root e g) = widget_cache g"
  "widgets (init_root e g) m \<noteq> None \<longleftrightarrow> m = []"
  by (simp_all add: init_root_def get_widget_def load_widget_def root_node_def)

lemma sound_init_root: "sound (init_root e g)"
  by (simp add: sound_def init_root_def get_widget_def load_widget_def root_node_def
      FlagUnitWidget_init_def)

lemma bound_init_root: "bound (init_root e g)"
  unfolding bound_def using init_root_simps(3) [of e g] by auto

lemma sound_not_dead: "sound s \<Longrightarrow> \<not> dead s m"
  by (auto simp: sound_def dead_def split: option.splits)

lemma CategoryBrowser_init_empty_cache:
  assumes "widget_cache g = []"
  shows "CategoryBrowser_init e g = set_descendants_state e root_node True (init_root e g)"
proof -
  have "g\<lparr>widgets :=
            (\<lambda>a. if take 3 a = [[], [], []] \<and> drop 3 a \<in> snd ` set (widget_cache g)
                 then widgets g (drop 3 a) else None),
          widget_cache := map (\<lambda>(i, n). (i, former n)) (widget_cache g),
          test_info_list := init_jobs e\<rparr> =
        g\<lparr>widgets := (\<lambda>_. None), test_info_list := init_jobs e\<rparr>"
    using assms by (intro state.equality) simp_all
  then show ?thesis
    by (simp add: CategoryBrowser_init_def init_root_def init_jobs_def Let_def)
qed

lemma CategoryBrowser_init_fold:
  assumes "widget_cache g = []"
  shows "CategoryBrowser_init e g =
     fold (visit e True) (descendants e (init_root e g) []) (init_root e g)"
proof -
  have "\<forall>d \<in> set (descendants e (init_root e g) []). \<not> dead (init_root e g) d"
    by (simp add: sound_not_dead sound_init_root)
  with flatten(1) [of e "init_root e g" "[]" True] show ?thesis
    by (simp add: CategoryBrowser_init_empty_cache [OF assms] root_node_def)
qed

lemma test_info_list_init: "test_info_list (CategoryBrowser_init e g) = init_jobs e"
  by (simp add: CategoryBrowser_init_def Let_def descent_test_info_list init_jobs_def)

lemma tree_nodes_init:
  "tree_nodes e (CategoryBrowser_init e g) = [] # descendants e (init_root e g) []"
proof -
  have "test_info_list (CategoryBrowser_init e g) = test_info_list (init_root e g)"
    by (simp add: test_info_list_init init_root_simps)
  then have "descendants e (CategoryBrowser_init e g) [] = descendants e (init_root e g) []"
    by (rule descendants_cong)
  then show ?thesis by (simp add: tree_nodes_def root_node_def)
qed

lemma jobs_init:
  "jobs (CategoryBrowser_init e g) c =
     {i \<in> set (get_static_todo_list e). effective_category_id e i = c}"
  by (force simp: jobs_def test_info_list_init init_jobs_def image_iff)

lemma sound_init: "widget_cache g = [] \<Longrightarrow> sound (CategoryBrowser_init e g)"
  by (simp add: CategoryBrowser_init_fold sound_fold_visit sound_init_root)

lemma bound_init: "widget_cache g = [] \<Longrightarrow> bound (CategoryBrowser_init e g)"
  by (simp add: CategoryBrowser_init_fold bound_fold_visit bound_init_root)

lemma loaded_init:
  assumes c: "widget_cache g = []"
    and n: "n \<in> set (tree_nodes e (CategoryBrowser_init e g))"
  shows "widgets (CategoryBrowser_init e g) n \<noteq> None"
proof (cases "n = []")
  case True
  have "widgets (init_root e g) [] \<noteq> None"
    by (simp add: init_root_simps del: not_None_eq)
  then show ?thesis
    unfolding True CategoryBrowser_init_fold [OF c] by (rule widgets_fold_visit_Some)
next
  case False
  with n have "n \<in> set (descendants e (init_root e g) [])"
    by (simp add: tree_nodes_init)
  then show ?thesis
    unfolding CategoryBrowser_init_fold [OF c] by (rule widgets_fold_visit_loaded)
qed

lemma sound_loaded:
  "sound s \<Longrightarrow> widgets s n \<noteq> None \<Longrightarrow> materialized s n \<and> is_flagged s n"
  by (auto simp: sound_def materialized_def is_flagged_def)

lemma cache_init:
  assumes "widget_cache g = []"
  shows "set (widget_cache (CategoryBrowser_init e g)) \<subseteq>
     {(j, [c, j]) | c j. c \<in> cats e \<and> j \<in> jobs (CategoryBrowser_init e g) c}"
proof -
  let ?s = "CategoryBrowser_init e g"
  have "set (widget_cache ?s) \<subseteq>
      {(get_key d, d) | d. d \<in> set (descendants e (init_root e g) []) \<and> is_leaf d}"
    using widget_cache_fold_visit [of e True "descendants e (init_root e g) []" "init_root e g"] assms
    by (simp add: CategoryBrowser_init_fold init_root_simps)
  also have "descendants e (init_root e g) [] = descendants e ?s []"
    using tree_nodes_init [of e g] by (simp add: tree_nodes_def root_node_def)
  also have "{(get_key d, d) | d. d \<in> set (descendants e ?s []) \<and> is_leaf d} \<subseteq>
      {(j, [c, j]) | c j. c \<in> cats e \<and> j \<in> jobs ?s c}"
    by (auto simp: set_descendants_root get_key_def)
  finally show ?thesis .
qed

lemma finish_key_returns:
  assumes "widgets s p \<noteq> None" and "k = ''t'' \<or> k = ''T''"
  shows "main_loop e [(p, k)] s = Some (Inr s)"
proof -
  from assms(1) obtain w where w: "widgets s p = Some w" by auto
  then have g: "get_widget e p s = s" by (simp add: get_widget_def)
  from assms(2) have "k \<noteq> '' ''" "k \<noteq> ''enter''" "k \<noteq> ''i''" "k \<noteq> ''I''" by auto
  with w have "unhandled_keys e p k s = Inr (Some k, s)"
    by (simp add: unhandled_keys_def)
  with g assms(2) show ?thesis by auto
qed

text \<open>
  C6. Let the cache be empty when the browser is built, as it is when the module is loaded
  and after every \<open>run\<close>. In the state \<open>CategoryBrowser_init\<close> leaves, every node of the tree
  is materialized and flagged, and the key of every job node is bound in the cache to a flagged
  widget. So \<open>run\<close>, given the finish key alone, returns the ids of the static todo list whose
  category participates.
\<close>

theorem CategoryBrowser_init_includes_all:
  assumes "widget_cache g = []"
  shows "let s = CategoryBrowser_init e g in
     (\<forall>n \<in> set (tree_nodes e s). materialized s n \<and> is_flagged s n) \<and>
     (\<forall>n \<in> set (tree_nodes e s). is_leaf n \<longrightarrow>
        (\<exists>m. map_of (widget_cache s) (get_key n) = Some m \<and> is_flagged s m)) \<and>
     (\<forall>p \<in> set (tree_nodes e s). \<forall>k \<in> {''t'', ''T''}.
        run e [(p, k)] s =
          Some (Inr ({j \<in> set (get_static_todo_list e).
                       effective_category_id e j \<in> set (get_participating_categories e)},
                     s\<lparr>widget_cache := [], test_info_list := []\<rparr>)))"
proof -
  let ?s = "CategoryBrowser_init e g"
  let ?J = "{j \<in> set (get_static_todo_list e).
      effective_category_id e j \<in> set (get_participating_categories e)}"
  have one: "materialized ?s n \<and> is_flagged ?s n" if "n \<in> set (tree_nodes e ?s)" for n
    using that by (intro sound_loaded sound_init loaded_init assms)
  have two: "\<exists>m. map_of (widget_cache ?s) (get_key n) = Some m \<and> is_flagged ?s m"
    if "n \<in> set (tree_nodes e ?s)" "is_leaf n" for n
  proof -
    from that have "is_leaf n \<and> widgets ?s n \<noteq> None"
      by (simp add: loaded_init [OF assms] del: not_None_eq)
    with bound_init [OF assms, of e] obtain m where m: "map_of (widget_cache ?s) (get_key n) = Some m"
      and "widgets ?s m \<noteq> None"
      unfolding bound_def by blast
    then have "is_flagged ?s m"
      using sound_loaded [OF sound_init [OF assms], of e m] by simp
    with m show ?thesis by blast
  qed
  have sel: "set (selection ?s) = ?J"
  proof (intro equalityI subsetI)
    fix j
    assume "j \<in> set (selection ?s)"
    then obtain i w where "(i, w) \<in> set (widget_cache ?s)" and j: "j = get_key w"
      by (auto simp: selection_def)
    with cache_init [OF assms, of e] obtain c where "w = [c, i]" "c \<in> cats e" "i \<in> jobs ?s c"
      by auto
    with j show "j \<in> ?J"
      by (simp add: jobs_init cats_def get_key_def)
  next
    fix j
    assume "j \<in> ?J"
    then have n: "[effective_category_id e j, j] \<in> set (tree_nodes e ?s)"
      by (simp add: set_tree_nodes jobs_init cats_def)
    from two [OF n] obtain m where m: "map_of (widget_cache ?s) j = Some m" and f: "is_flagged ?s m"
      by (auto simp: get_key_def)
    from m have in_cache: "(j, m) \<in> set (widget_cache ?s)"
      by (rule map_of_SomeD)
    with cache_init [OF assms, of e] obtain c where "m = [c, j]" by auto
    then have "get_key m = j" by (simp add: get_key_def)
    with in_cache f show "j \<in> set (selection ?s)"
      by (force simp: selection_def)
  qed
  have three: "run e [(p, k)] ?s = Some (Inr (?J, ?s\<lparr>widget_cache := [], test_info_list := []\<rparr>))"
    if "p \<in> set (tree_nodes e ?s)" "k \<in> {''t'', ''T''}" for p k
  proof -
    from that have "main_loop e [(p, k)] ?s = Some (Inr ?s)"
      by (intro finish_key_returns loaded_init assms) auto
    then show ?thesis
      by (simp add: run_def sel del: main_loop.simps)
  qed
  from one two three show ?thesis
    unfolding Let_def by blast
qed

theorem CategoryBrowser_init_includes_all_witness:
  "widget_cache module_state = [] \<and>
   tree_nodes env_AB state_AB =
     [[], [''A''], [''A'', ''job1''], [''A'', ''job2''], [''B''], [''B'', ''job3'']] \<and>
   list_all (\<lambda>n. materialized state_AB n \<and> is_flagged state_AB n) (tree_nodes env_AB state_AB) \<and>
   run env_AB [([], ''T'')] state_AB =
     Some (Inr ({''job1'', ''job2'', ''job3''}, state_AB\<lparr>widget_cache := [], test_info_list := []\<rparr>))"
proof -
  have h: "widget_cache module_state = []" by (simp add: module_state_def)
  have t: "tree_nodes env_AB state_AB =
      [[], [''A''], [''A'', ''job1''], [''A'', ''job2''], [''B''], [''B'', ''job3'']]"
    by code_simp
  have j: "{j \<in> set (get_static_todo_list env_AB).
      effective_category_id env_AB j \<in> set (get_participating_categories env_AB)} =
      {''job1'', ''job2'', ''job3''}"
    by (auto simp: env_AB_def)
  note i = CategoryBrowser_init_includes_all [OF h, of env_AB, unfolded Let_def,
      folded state_AB_def]
  have c3: "list_all (\<lambda>n. materialized state_AB n \<and> is_flagged state_AB n)
      (tree_nodes env_AB state_AB)"
    using i [THEN conjunct1] unfolding list_all_iff .
  have "[] \<in> set (tree_nodes env_AB state_AB)" by (simp add: t)
  with i [THEN conjunct2, THEN conjunct2] have c4: "run env_AB [([], ''T'')] state_AB =
      Some (Inr ({''job1'', ''job2'', ''job3''},
        state_AB\<lparr>widget_cache := [], test_info_list := []\<rparr>))"
    unfolding j by blast
  show ?thesis by (intro conjI) (rule h, rule t, rule c3, rule c4)
qed

subsection \<open>Propagation to the ancestors\<close>

lemma strict_prefix_child: "strict_prefix m (q @ [k]) \<longleftrightarrow> prefix m q"
  by (auto simp: strict_prefix_def)

lemma propagate_step:
  "materialized s q \<Longrightarrow>
     update_w q (set_flagged q b (get_widget e q s)) = Inr (flag_all {q} b s)"
  using update_w_visit [of s q b e] visit_materialized [of s q e b]
  by (simp add: materialized_not_dead)

lemma ancestors_all_materialized:
  "\<forall>m. prefix m q \<longrightarrow> materialized s m \<Longrightarrow>
     ancestors_all e (Some q) b s = Inr (flag_all {m. prefix m q} b s)"
proof (induction q arbitrary: s rule: rev_induct)
  case Nil
  then have "materialized s []" by simp
  then show ?case
    by (simp add: propagate_step get_parent_def)
next
  case (snoc k q)
  then have m: "materialized s (q @ [k])" by simp
  have "\<forall>m. prefix m q \<longrightarrow> materialized (flag_all {q @ [k]} b s) m"
    using snoc.prems by simp
  then have "ancestors_all e (Some q) b (flag_all {q @ [k]} b s) =
      Inr (flag_all {m. prefix m q} b (flag_all {q @ [k]} b s))"
    by (rule snoc.IH)
  moreover have "{m. prefix m q} \<union> {q @ [k]} = {m. prefix m (q @ [k])}"
    by auto
  ultimately show ?case
    using m by (simp add: propagate_step get_parent_def)
qed

lemma other_child_flagged_any:
  assumes "\<not> is_flagged s (q @ [k0])"
  shows "(\<exists>k \<in> set (get_child_keys e s q). is_flagged s (q @ [k])) =
     other_child_flagged e s (q @ [k0]) q"
  using assms by (auto simp: other_child_flagged_def)

lemma cleared_stop:
  "other_child_flagged e s (q @ [k0]) q \<Longrightarrow> cleared e s (q @ [k0]) = {}"
  by (auto simp: cleared_def strict_prefix_child)

lemma other_child_flagged_below:
  assumes "strict_prefix a q"
  shows "other_child_flagged e (flag_all {q} False s) q a = other_child_flagged e s (q @ [k0]) a"
proof -
  have k: "get_child_keys e (flag_all {q} False s) a = get_child_keys e s a"
    by (rule get_child_keys_cong) simp
  have p: "prefix (a @ [k]) (q @ [k0]) = prefix (a @ [k]) q" for k
    using assms by (auto simp: prefix_snoc strict_prefix_def)
  have "is_flagged (flag_all {q} False s) (a @ [k]) = is_flagged s (a @ [k])"
    if "\<not> prefix (a @ [k]) q" for k
    using that by (auto simp: is_flagged_flag_all)
  with k p show ?thesis
    by (auto simp: other_child_flagged_def)
qed

lemma cleared_step:
  assumes "\<not> other_child_flagged e s (q @ [k0]) q"
  shows "cleared e s (q @ [k0]) = insert q (cleared e (flag_all {q} False s) q)"
proof (intro equalityI subsetI)
  fix m
  assume m: "m \<in> cleared e s (q @ [k0])"
  then have pm: "prefix m q" and
    all: "\<And>a. prefix m a \<Longrightarrow> strict_prefix a (q @ [k0]) \<Longrightarrow> \<not> other_child_flagged e s (q @ [k0]) a"
    by (auto simp: cleared_def strict_prefix_child)
  show "m \<in> insert q (cleared e (flag_all {q} False s) q)"
  proof (cases "m = q")
    case True
    then show ?thesis by simp
  next
    case False
    with pm have sp: "strict_prefix m q" by (simp add: strict_prefix_def)
    have "\<not> other_child_flagged e (flag_all {q} False s) q a"
      if "prefix m a" "strict_prefix a q" for a
    proof -
      from that(2) have "prefix a q" by (simp add: strict_prefix_def)
      with all [OF that(1)] other_child_flagged_below [OF that(2), of e s k0] show ?thesis
        by (simp add: strict_prefix_child)
    qed
    with sp show ?thesis by (simp add: cleared_def)
  qed
next
  fix m
  assume m: "m \<in> insert q (cleared e (flag_all {q} False s) q)"
  show "m \<in> cleared e s (q @ [k0])"
  proof (cases "m = q")
    case True
    have "a = q" if "prefix q a" "prefix a q" for a
      using that by (simp add: prefix_order.antisym)
    with assms True show ?thesis
      by (auto simp: cleared_def strict_prefix_child)
  next
    case False
    with m have sp: "strict_prefix m q"
      and all: "\<And>a. prefix m a \<Longrightarrow> strict_prefix a q \<Longrightarrow>
        \<not> other_child_flagged e (flag_all {q} False s) q a"
      by (auto simp: cleared_def)
    have "\<not> other_child_flagged e s (q @ [k0]) a"
      if "prefix m a" "prefix a q" for a
    proof (cases "a = q")
      case True
      with assms show ?thesis by simp
    next
      case False
      with that(2) have "strict_prefix a q" by (simp add: strict_prefix_def)
      with all [OF that(1)] other_child_flagged_below [of a q] show ?thesis by simp
    qed
    moreover from sp have "prefix m q" by (simp add: strict_prefix_def)
    ultimately show ?thesis by (simp add: cleared_def strict_prefix_child)
  qed
qed

lemma family_materialized_step:
  assumes "family_materialized e s (q @ [k0])"
  shows "family_materialized e (flag_all X b s) q"
proof -
  have k: "get_child_keys e (flag_all X b s) a = get_child_keys e s a" for a
    by (rule get_child_keys_cong) simp
  have "prefix a q" if "strict_prefix a q" for a
    using that by (simp add: strict_prefix_def)
  with assms show ?thesis
    unfolding family_materialized_def k by (simp add: strict_prefix_child)
qed

lemma ancestors_unless_materialized:
  "family_materialized e s (q @ [k0]) \<Longrightarrow> \<not> is_flagged s (q @ [k0]) \<Longrightarrow>
     ancestors_unless e (Some q) False s = Inr (flag_all (cleared e s (q @ [k0])) False s)"
proof (induction q arbitrary: s k0 rule: rev_induct)
  case Nil
  from Nil.prems(1) have m: "materialized s []"
    and c: "\<forall>k \<in> set (get_child_keys e s []). materialized s ([] @ [k])"
    unfolding family_materialized_def strict_prefix_child by auto
  have a: "any_child_flagged e [] (get_child_keys e s []) s =
      (other_child_flagged e s ([] @ [k0]) [], s)"
    using any_child_flagged_materialized [OF c, of e] other_child_flagged_any [OF Nil.prems(2), of e]
    by simp
  show ?case
  proof (cases "other_child_flagged e s ([] @ [k0]) []")
    case True
    with a cleared_stop [OF True] show ?thesis by simp
  next
    case False
    have "cleared e (flag_all {[]} False s) [] = {}"
      by (simp add: cleared_def)
    with cleared_step [OF False] have "cleared e s ([] @ [k0]) = {[]}" by simp
    with a False m show ?thesis
      by (simp add: propagate_step get_parent_def)
  qed
next
  case (snoc k1 q)
  let ?q = "q @ [k1]"
  from snoc.prems(1) have m: "materialized s ?q"
    and c: "\<forall>k \<in> set (get_child_keys e s ?q). materialized s (?q @ [k])"
    unfolding family_materialized_def strict_prefix_child by auto
  have a: "any_child_flagged e ?q (get_child_keys e s ?q) s =
      (other_child_flagged e s (?q @ [k0]) ?q, s)"
    using any_child_flagged_materialized [OF c, of e] other_child_flagged_any [OF snoc.prems(2), of e]
    by simp
  show ?case
  proof (cases "other_child_flagged e s (?q @ [k0]) ?q")
    case True
    with a cleared_stop [OF True] show ?thesis by simp
  next
    case False
    let ?s2 = "flag_all {?q} False s"
    have f: "family_materialized e ?s2 ?q"
      using snoc.prems(1) by (rule family_materialized_step)
    have nf: "\<not> is_flagged ?s2 ?q"
      by (simp add: is_flagged_flag_all)
    have "ancestors_unless e (Some q) False ?s2 = Inr (flag_all (cleared e ?s2 ?q) False ?s2)"
      using f nf by (rule snoc.IH)
    with a False m cleared_step [OF False] show ?thesis
      by (simp add: propagate_step get_parent_def Un_commute)
  qed
qed

lemma strict_prefix_single: "strict_prefix a [c] \<longleftrightarrow> a = []"
  by (cases a) auto

lemma strict_prefix_pair: "strict_prefix a [c, j] \<longleftrightarrow> a = [] \<or> a = [c]"
  by (cases a) (auto simp: strict_prefix_single)

lemma family_materialized_tree:
  assumes "all_materialized e s" and "N \<in> set (tree_nodes e s)"
  shows "family_materialized e s N"
  using assms(2)
proof (cases rule: tree_node_cases)
  case 1
  then show ?thesis by (simp add: family_materialized_def)
next
  case (2 c)
  with assms(1) show ?thesis
    by (auto simp: family_materialized_def all_materialized_def set_tree_nodes
        strict_prefix_single set_get_child_keys)
next
  case (3 c j)
  with assms(1) show ?thesis
    by (auto simp: family_materialized_def all_materialized_def set_tree_nodes
        strict_prefix_pair set_get_child_keys)
qed

lemma cleared_root: "cleared e s [] = {}"
  by (simp add: cleared_def)

lemma set_ancestors_state_unflag:
  assumes am: "all_materialized e s"
    and N: "N \<in> set (tree_nodes e s)"
    and nf: "\<not> is_flagged s N"
  shows "set_ancestors_state e N False s = Inr (flag_all (cleared e s N) False s)"
proof -
  from am N have "materialized s N" by (simp add: all_materialized_def)
  then obtain w where w: "widgets s N = Some w"
    by (auto simp: materialized_def split: option.splits)
  with nf have nf': "\<not> flagged w" by (simp add: is_flagged_def)
  show ?thesis
  proof (cases N rule: rev_cases)
    case Nil
    with w nf' show ?thesis
      by (simp add: set_ancestors_state_def get_parent_def cleared_root)
  next
    case (snoc q k0)
    have "ancestors_unless e (Some q) False s = Inr (flag_all (cleared e s (q @ [k0])) False s)"
      using family_materialized_tree [OF am N] nf unfolding snoc
      by (rule ancestors_unless_materialized)
    with w nf' snoc show ?thesis
      by (simp add: set_ancestors_state_def get_parent_def)
  qed
qed

text \<open>
  C2. Let every node of the tree be materialized and let \<open>N\<close> be a node whose flag has been
  cleared. \<open>set_ancestors_state\<close> with \<open>False\<close> returns, and a proper ancestor \<open>a\<close> of \<open>N\<close> is
  included afterwards exactly when it was included before and the walk stopped at \<open>a\<close> or
  below it: some ancestor from the parent of \<open>N\<close> up to \<open>a\<close> has an included child other
  than the child on the way to \<open>N\<close>. The widgets of the ancestors from the stopping level
  upward, and of all nodes that are not proper ancestors of \<open>N\<close>, are unchanged.
\<close>

theorem set_ancestors_state_unflags_up_to_sibling:
  assumes "\<forall>n \<in> set (tree_nodes e s). materialized s n"
    and "N \<in> set (tree_nodes e s)"
    and "\<not> is_flagged s N"
  shows "\<exists>s'. set_ancestors_state e N False s = Inr s' \<and>
     (\<forall>a. strict_prefix a N \<longrightarrow>
        is_flagged s' a =
          (is_flagged s a \<and>
           (\<exists>b. prefix a b \<and> strict_prefix b N \<and>
                (\<exists>k \<in> set (get_child_keys e s b).
                   \<not> prefix (get_child_node b k) N \<and> is_flagged s (get_child_node b k))))) \<and>
     (\<forall>a. strict_prefix a N \<and>
          (\<exists>b. prefix a b \<and> strict_prefix b N \<and>
               (\<exists>k \<in> set (get_child_keys e s b).
                  \<not> prefix (get_child_node b k) N \<and> is_flagged s (get_child_node b k))) \<longrightarrow>
          widgets s' a = widgets s a) \<and>
     (\<forall>m. \<not> strict_prefix m N \<longrightarrow> widgets s' m = widgets s m)"
proof -
  have am: "all_materialized e s"
    using assms(1) by (simp add: all_materialized_def)
  have eq: "set_ancestors_state e N False s = Inr (flag_all (cleared e s N) False s)"
    using am assms(2,3) by (rule set_ancestors_state_unflag)
  define stop where "stop a \<longleftrightarrow>
      (\<exists>b. prefix a b \<and> strict_prefix b N \<and>
           (\<exists>k \<in> set (get_child_keys e s b).
              \<not> prefix (get_child_node b k) N \<and> is_flagged s (get_child_node b k)))" for a
  let ?s' = "flag_all (cleared e s N) False s"
  have c: "m \<in> cleared e s N \<longleftrightarrow> strict_prefix m N \<and> \<not> stop m" for m
    unfolding stop_def by (auto simp: cleared_def other_child_flagged_def get_child_node_def)
  have f1: "is_flagged ?s' a = (is_flagged s a \<and> stop a)" if "strict_prefix a N" for a
    using that by (auto simp: is_flagged_flag_all c)
  have f2: "widgets ?s' a = widgets s a" if "strict_prefix a N \<and> stop a" for a
    using that by (simp add: c)
  have f3: "widgets ?s' m = widgets s m" if "\<not> strict_prefix m N" for m
    using that by (simp add: c)
  have "set_ancestors_state e N False s = Inr ?s' \<and>
     (\<forall>a. strict_prefix a N \<longrightarrow> is_flagged ?s' a = (is_flagged s a \<and> stop a)) \<and>
     (\<forall>a. strict_prefix a N \<and> stop a \<longrightarrow> widgets ?s' a = widgets s a) \<and>
     (\<forall>m. \<not> strict_prefix m N \<longrightarrow> widgets ?s' m = widgets s m)"
    using eq f1 f2 f3 by blast
  then show ?thesis
    unfolding stop_def by (rule exI)
qed

theorem set_ancestors_state_unflags_up_to_sibling_witness:
  "list_all (materialized state_A_last) (tree_nodes env_AB state_A_last) \<and>
   [''A'', ''job2''] \<in> set (tree_nodes env_AB state_A_last) \<and>
   \<not> is_flagged state_A_last [''A'', ''job2''] \<and>
   is_flagged state_A_last [''A''] \<and>
   (case set_ancestors_state env_AB [''A'', ''job2''] False state_A_last of
      Inr s' \<Rightarrow>
        \<not> is_flagged s' [''A''] \<and> is_flagged s' [] \<and> is_flagged s' [''B''] \<and>
        widgets s' [''B''] = widgets state_A_last [''B'']
    | Inl x \<Rightarrow> False)"
proof -
  have h1: "\<forall>n \<in> set (tree_nodes env_AB state_A_last). materialized state_A_last n"
    by code_simp
  have h2: "[''A'', ''job2''] \<in> set (tree_nodes env_AB state_A_last)" by code_simp
  have h3: "\<not> is_flagged state_A_last [''A'', ''job2'']" by code_simp
  have h4: "is_flagged state_A_last [''A'']" by code_simp
  have a: "case set_ancestors_state env_AB [''A'', ''job2''] False state_A_last of
      Inr s' \<Rightarrow> \<not> is_flagged s' [''A''] \<and> is_flagged s' [] \<and> is_flagged s' [''B'']
    | Inl x \<Rightarrow> False"
    by code_simp
  from set_ancestors_state_unflags_up_to_sibling [OF h1 h2 h3]
  obtain s' where eq: "set_ancestors_state env_AB [''A'', ''job2''] False state_A_last = Inr s'"
    and fr: "\<forall>m. \<not> strict_prefix m [''A'', ''job2''] \<longrightarrow> widgets s' m = widgets state_A_last m"
    by blast
  from fr have "widgets s' [''B''] = widgets state_A_last [''B'']" by simp
  with a eq have c: "case set_ancestors_state env_AB [''A'', ''job2''] False state_A_last of
      Inr s' \<Rightarrow>
        \<not> is_flagged s' [''A''] \<and> is_flagged s' [] \<and> is_flagged s' [''B''] \<and>
        widgets s' [''B''] = widgets state_A_last [''B'']
    | Inl x \<Rightarrow> False"
    by simp
  from h1 have h1': "list_all (materialized state_A_last) (tree_nodes env_AB state_A_last)"
    by (simp add: list_all_iff)
  show ?thesis by (intro conjI) (rule h1', rule h2, rule h3, rule h4, rule c)
qed

subsection \<open>The space key on a materialized tree\<close>

lemma prefix_in_tree:
  "N \<in> set (tree_nodes e s) \<Longrightarrow> prefix m N \<Longrightarrow> m \<in> set (tree_nodes e s)"
  by (erule tree_node_cases) (auto simp: set_tree_nodes prefix_Cons prefix_def Cons_eq_append_conv)

lemma set_ancestors_state_flag:
  assumes am: "all_materialized e s"
    and N: "N \<in> set (tree_nodes e s)"
    and f: "is_flagged s N"
  shows "set_ancestors_state e N b s = Inr (flag_all {m. strict_prefix m N} b s)"
proof -
  from f obtain w where w: "widgets s N = Some w" "flagged w"
    by (auto simp: is_flagged_def split: option.splits)
  show ?thesis
  proof (cases N rule: rev_cases)
    case Nil
    with w show ?thesis
      by (simp add: set_ancestors_state_def get_parent_def)
  next
    case (snoc q k0)
    have "\<forall>m. prefix m q \<longrightarrow> materialized s m"
      using am prefix_in_tree [OF N] unfolding snoc all_materialized_def by auto
    then have "ancestors_all e (Some q) b s = Inr (flag_all {m. prefix m q} b s)"
      by (rule ancestors_all_materialized)
    with w snoc show ?thesis
      by (simp add: set_ancestors_state_def get_parent_def strict_prefix_child)
  qed
qed

lemma update_w_materialized: "materialized s p \<Longrightarrow> update_w p s = Inr (fix_box p s)"
  by (auto simp: update_w_def fix_box_def materialized_def fun_eq_iff split: option.splits
      intro!: state.equality)

lemma fix_box_simps [simp]:
  "widget_cache (fix_box p s) = widget_cache s"
  "test_info_list (fix_box p s) = test_info_list s"
  "show_job_ids (fix_box p s) = show_job_ids s"
  "materialized (fix_box p s) m = materialized s m"
  "is_flagged (fix_box p s) m = is_flagged s m"
  by (auto simp: fix_box_def materialized_def is_flagged_def split: option.splits)

lemma set_flagged_simps [simp]:
  "materialized (set_flagged p b s) m = materialized s m"
  "is_flagged (set_flagged p b s) m = (if m = p then widgets s p \<noteq> None \<and> b else is_flagged s m)"
  by (auto simp: set_flagged_def materialized_def is_flagged_def split: option.splits)

lemma tree_nodes_simps [simp]:
  "tree_nodes e (flag_all X b s) = tree_nodes e s"
  "tree_nodes e (set_flagged p b s) = tree_nodes e s"
  "tree_nodes e (fix_box p s) = tree_nodes e s"
  by (rule tree_nodes_cong, simp)+

lemma descendants_simps [simp]:
  "descendants e (flag_all X b s) n = descendants e s n"
  "descendants e (set_flagged p b s) n = descendants e s n"
  "descendants e (fix_box p s) n = descendants e s n"
  by (rule descendants_cong, simp)+

lemma get_child_keys_simps [simp]:
  "get_child_keys e (flag_all X b s) n = get_child_keys e s n"
  "get_child_keys e (set_flagged p b s) n = get_child_keys e s n"
  "get_child_keys e (fix_box p s) n = get_child_keys e s n"
  by (rule get_child_keys_cong, simp)+

lemma all_materialized_simps [simp]:
  "all_materialized e (flag_all X b s) = all_materialized e s"
  "all_materialized e (set_flagged p b s) = all_materialized e s"
  "all_materialized e (fix_box p s) = all_materialized e s"
  by (simp_all add: all_materialized_def)

lemma descendants_below:
  "p \<in> set (tree_nodes e s) \<Longrightarrow> d \<in> set (descendants e s p) \<Longrightarrow> strict_prefix p d"
  by (erule tree_node_cases)
    (auto simp: set_descendants_root set_descendants_cat descendants_leaf)

lemma toggle_materialized:
  assumes am: "all_materialized e s" and p: "p \<in> set (tree_nodes e s)"
  shows "unhandled_keys e p '' '' s = Inr (None, toggled e p s)"
proof -
  let ?b = "\<not> is_flagged s p"
  let ?s1 = "set_flagged p ?b s"
  let ?D = "set (descendants e s p)"
  let ?s2 = "flag_all ?D ?b ?s1"
  let ?A = "if ?b then {m. strict_prefix m p} else cleared e ?s2 p"
  let ?s3 = "flag_all ?A ?b ?s2"
  from am p have mp: "materialized s p" by (simp add: all_materialized_def)
  then obtain w where w: "widgets s p = Some w"
    by (auto simp: materialized_def split: option.splits)
  then have b: "(\<not> flagged w) = ?b" by (simp add: is_flagged_def)
  have f1: "is_flagged ?s1 p = ?b" using w by simp
  have "\<forall>d \<in> ?D. materialized s d"
    using am descendants_in_tree [OF p] by (auto simp: all_materialized_def)
  then have d: "set_descendants_state e p ?b ?s1 = ?s2"
    using set_descendants_state_materialized [of e ?s1 p ?b] by simp
  have pD: "p \<notin> ?D" using descendants_below [OF p, of p] by auto
  then have f2: "is_flagged ?s2 p = ?b"
    using w by (simp add: is_flagged_flag_all)
  have a: "set_ancestors_state e p ?b ?s2 = Inr ?s3"
  proof (cases ?b)
    case True
    then have "is_flagged ?s2 p" using f2 by simp
    with set_ancestors_state_flag [of e ?s2 p ?b] am p True show ?thesis by simp
  next
    case False
    then have "\<not> is_flagged ?s2 p" using f2 by simp
    with set_ancestors_state_unflag [of e ?s2 p] am p False show ?thesis by simp
  qed
  have "materialized ?s3 p" using mp by simp
  then have u: "update_w p ?s3 = Inr (fix_box p ?s3)" by (rule update_w_materialized)
  show ?thesis
    unfolding unhandled_keys_def toggled_def Let_def
    by (simp only: w option.case b f1 d f2 a u sum.case) simp
qed

lemma toggled_simps [simp]:
  "widget_cache (toggled e p s) = widget_cache s"
  "test_info_list (toggled e p s) = test_info_list s"
  "show_job_ids (toggled e p s) = show_job_ids s"
  "all_materialized e (toggled e p s) = all_materialized e s"
  "tree_nodes e (toggled e p s) = tree_nodes e s"
  by (simp_all add: toggled_def Let_def)

lemma jobs_cong: "test_info_list s' = test_info_list s \<Longrightarrow> jobs s' c = jobs s c"
  by (simp add: jobs_def)

lemma cleared_toggle:
  assumes p: "p \<in> set (tree_nodes e s)"
  shows "cleared e (flag_all (set (descendants e s p)) b (set_flagged p b s)) p = cleared e s p"
proof -
  let ?s2 = "flag_all (set (descendants e s p)) b (set_flagged p b s)"
  have "is_flagged ?s2 (a @ [k]) = is_flagged s (a @ [k])"
    if "strict_prefix a p" "\<not> prefix (a @ [k]) p" for a k
  proof -
    from that(2) have "a @ [k] \<noteq> p" by auto
    moreover have "a @ [k] \<notin> set (descendants e s p)"
    proof
      assume "a @ [k] \<in> set (descendants e s p)"
      with p have "strict_prefix p (a @ [k])" by (rule descendants_below)
      then have "prefix p a" by (simp add: strict_prefix_child)
      with that(1) show False by (auto simp: strict_prefix_def)
    qed
    ultimately show ?thesis by (simp add: is_flagged_flag_all)
  qed
  then have "other_child_flagged e ?s2 p a = other_child_flagged e s p a"
    if "strict_prefix a p" for a
    using that by (auto simp: other_child_flagged_def)
  then show ?thesis by (auto simp: cleared_def)
qed

lemma loaded_simps [simp]:
  "loaded (set_flagged p b s) m = loaded s m"
  "loaded (flag_all X b s) m = loaded s m"
  by (auto simp: loaded_def set_flagged_def)

lemma is_flagged_loaded:
  "is_flagged (flag_all X b s) m = (if m \<in> X then loaded s m \<and> b else is_flagged s m)"
  "is_flagged (set_flagged p b s) m = (if m = p then loaded s p \<and> b else is_flagged s m)"
  by (simp_all add: is_flagged_flag_all loaded_def)

lemma loaded_tree:
  "all_materialized e s \<Longrightarrow> m \<in> set (tree_nodes e s) \<Longrightarrow> loaded s m"
  by (auto simp: all_materialized_def materialized_def loaded_def split: option.splits)

lemma cleared_in_tree:
  "p \<in> set (tree_nodes e s) \<Longrightarrow> m \<in> cleared e s p \<Longrightarrow> m \<in> set (tree_nodes e s)"
  using prefix_in_tree [of p e s m] by (auto simp: cleared_def strict_prefix_def)

lemma is_flagged_toggled:
  assumes am: "all_materialized e s" and p: "p \<in> set (tree_nodes e s)"
  shows "is_flagged (toggled e p s) m =
     (if m = p \<or> m \<in> set (descendants e s p) \<or>
         m \<in> (if is_flagged s p then cleared e s p else {m. strict_prefix m p})
      then \<not> is_flagged s p else is_flagged s m)"
proof -
  let ?b = "\<not> is_flagged s p"
  let ?D = "set (descendants e s p)"
  let ?A = "if is_flagged s p then cleared e s p else {m. strict_prefix m p}"
  have l: "loaded s m" if "m \<in> set (tree_nodes e s)" for m
    using am that by (rule loaded_tree)
  have t: "m \<in> set (tree_nodes e s)" if "m = p \<or> m \<in> ?D \<or> m \<in> ?A"
    using that p descendants_in_tree [OF p] cleared_in_tree [OF p, of m] prefix_in_tree [OF p, of m]
    by (auto simp: strict_prefix_def split: if_splits)
  have eq: "toggled e p s = fix_box p (flag_all ?A ?b (flag_all ?D ?b (set_flagged p ?b s)))"
    by (simp add: toggled_def Let_def cleared_toggle [OF p])
  show ?thesis
  proof (cases "m = p \<or> m \<in> ?D \<or> m \<in> ?A")
    case True
    then have "loaded s m" by (intro l t)
    moreover have "loaded s p" using p by (rule l)
    ultimately show ?thesis
      using True unfolding eq
      by (auto simp: is_flagged_loaded simp del: set_flagged_simps(2))
  next
    case False
    then show ?thesis
      unfolding eq by (auto simp: is_flagged_loaded simp del: set_flagged_simps(2))
  qed
qed

lemma other_child_flagged_root:
  "other_child_flagged e s (c # r) [] \<longleftrightarrow> (\<exists>c' \<in> cats e. c' \<noteq> c \<and> is_flagged s [c'])"
  by (auto simp: other_child_flagged_def set_get_child_keys)

lemma other_child_flagged_cat:
  "other_child_flagged e s [c, j] [c] \<longleftrightarrow> (\<exists>j' \<in> jobs s c. j' \<noteq> j \<and> is_flagged s [c, j'])"
  by (auto simp: other_child_flagged_def set_get_child_keys)

lemma cleared_cat:
  "cleared e s [c] = (if \<exists>c' \<in> cats e. c' \<noteq> c \<and> is_flagged s [c'] then {} else {[]})"
proof -
  have "m \<in> cleared e s [c] \<longleftrightarrow> m = [] \<and> \<not> other_child_flagged e s [c] []" for m
    by (auto simp: cleared_def strict_prefix_single)
  then show ?thesis
    unfolding other_child_flagged_root by auto
qed

lemma cleared_job:
  "cleared e s [c, j] =
     (if \<exists>j' \<in> jobs s c. j' \<noteq> j \<and> is_flagged s [c, j'] then {}
      else if \<exists>c' \<in> cats e. c' \<noteq> c \<and> is_flagged s [c'] then {[c]}
      else {[c], []})"
proof -
  have 1: "[c] \<in> cleared e s [c, j] \<longleftrightarrow> \<not> other_child_flagged e s [c, j] [c]"
    by (auto simp: cleared_def strict_prefix_pair)
  have 2: "[] \<in> cleared e s [c, j] \<longleftrightarrow>
      \<not> other_child_flagged e s [c, j] [c] \<and> \<not> other_child_flagged e s [c, j] []"
    by (auto simp: cleared_def strict_prefix_pair)
  have 3: "m = [] \<or> m = [c]" if "m \<in> cleared e s [c, j]" for m
    using that by (auto simp: cleared_def strict_prefix_pair)
  show ?thesis
    using 1 2 3 unfolding other_child_flagged_root other_child_flagged_cat
    by (auto split: if_splits)
qed

lemma ball_tree_nodes:
  "(\<forall>n \<in> set (tree_nodes e s). Q n) \<longleftrightarrow>
     Q [] \<and> (\<forall>c \<in> cats e. Q [c]) \<and> (\<forall>c \<in> cats e. \<forall>j \<in> jobs s c. Q [c, j])"
  unfolding set_tree_nodes by auto

lemma bex_children_root:
  "(\<exists>x \<in> set (children e s []). Q x) \<longleftrightarrow> (\<exists>c \<in> cats e. Q [c])"
  by (auto simp: children_def set_get_child_keys get_child_node_def)

lemma bex_children_cat:
  "(\<exists>x \<in> set (children e s [c]). Q x) \<longleftrightarrow> (\<exists>j \<in> jobs s c. Q [c, j])"
  by (auto simp: children_def set_get_child_keys get_child_node_def)

lemma children_root_empty: "children e s [] \<noteq> [] \<longleftrightarrow> cats e \<noteq> {}"
  using bex_children_root [of e s "\<lambda>x. True"]
  by (simp only: bex_triv_one_point1 bex_simps set_empty [symmetric]) auto

lemma children_cat_empty: "children e s [c] \<noteq> [] \<longleftrightarrow> jobs s c \<noteq> {}"
  using bex_children_cat [of e s c "\<lambda>x. True"]
  by (simp only: bex_triv_one_point1 bex_simps set_empty [symmetric]) auto

lemma consistent_shape:
  "consistent e s \<longleftrightarrow>
     (cats e \<noteq> {} \<longrightarrow> (is_flagged s [] \<longleftrightarrow> (\<exists>c \<in> cats e. is_flagged s [c]))) \<and>
     (\<forall>c \<in> cats e. jobs s c \<noteq> {} \<longrightarrow>
        (is_flagged s [c] \<longleftrightarrow> (\<exists>j \<in> jobs s c. is_flagged s [c, j])))"
  unfolding consistent_def ball_tree_nodes
  by (simp add: bex_children_root bex_children_cat children_root_empty children_cat_empty)

lemma jobs_toggled [simp]: "jobs (toggled e p s) c = jobs s c"
  by (rule jobs_cong) simp

lemma consistent_toggled:
  assumes am: "all_materialized e s" and p: "p \<in> set (tree_nodes e s)"
    and c: "consistent e s"
  shows "consistent e (toggled e p s)"
  using p
proof (cases rule: tree_node_cases)
  case 1
  note f = is_flagged_toggled [OF am p, unfolded 1]
  have r: "is_flagged (toggled e [] s) [] = (\<not> is_flagged s [])"
    by (simp add: f)
  have c1: "is_flagged (toggled e [] s) [c'] = (\<not> is_flagged s [])" if "c' \<in> cats e" for c'
    using that by (simp add: f set_descendants_root)
  have j1: "is_flagged (toggled e [] s) [c', j'] = (\<not> is_flagged s [])"
    if "c' \<in> cats e" "j' \<in> jobs s c'" for c' j'
    using that by (simp add: f set_descendants_root)
  show ?thesis
    unfolding 1 consistent_shape using r c1 j1 by auto
next
  case (2 c0)
  note f = is_flagged_toggled [OF am p, unfolded 2]
  have r: "is_flagged (toggled e [c0] s) [] =
      (if is_flagged s [c0] then is_flagged s [] \<and> (\<exists>c' \<in> cats e. c' \<noteq> c0 \<and> is_flagged s [c'])
       else True)"
    by (simp add: f set_descendants_cat cleared_cat strict_prefix_single)
  have c1: "is_flagged (toggled e [c0] s) [c'] =
      (if c' = c0 then \<not> is_flagged s [c0] else is_flagged s [c'])" for c'
    by (simp add: f set_descendants_cat cleared_cat strict_prefix_single)
  have j1: "is_flagged (toggled e [c0] s) [c', j'] =
      (if c' = c0 then \<not> is_flagged s [c0] else is_flagged s [c', j'])"
    if "j' \<in> jobs s c'" for c' j'
    using that by (auto simp: f set_descendants_cat cleared_cat strict_prefix_single)
  from c have c': "cats e \<noteq> {} \<longrightarrow> (is_flagged s [] \<longleftrightarrow> (\<exists>c \<in> cats e. is_flagged s [c]))"
    "\<forall>c \<in> cats e. jobs s c \<noteq> {} \<longrightarrow>
        (is_flagged s [c] \<longleftrightarrow> (\<exists>j \<in> jobs s c. is_flagged s [c, j]))"
    unfolding consistent_shape by blast+
  show ?thesis
    unfolding 2 consistent_shape jobs_toggled
  proof (intro conjI impI ballI)
    assume "cats e \<noteq> {}"
    with c'(1) 2(2) show "is_flagged (toggled e [c0] s) [] =
        (\<exists>c \<in> cats e. is_flagged (toggled e [c0] s) [c])"
      unfolding r c1 by (cases "is_flagged s [c0]") auto
  next
    fix c'
    assume "c' \<in> cats e" "jobs s c' \<noteq> {}"
    with c'(2) show "is_flagged (toggled e [c0] s) [c'] =
        (\<exists>j \<in> jobs s c'. is_flagged (toggled e [c0] s) [c', j])"
      unfolding c1 using j1 [of _ c'] by (cases "c' = c0") auto
  qed
next
  case (3 c0 j0)
  note f = is_flagged_toggled [OF am p, unfolded 3]
  let ?o1 = "\<exists>j' \<in> jobs s c0. j' \<noteq> j0 \<and> is_flagged s [c0, j']"
  let ?o0 = "\<exists>c' \<in> cats e. c' \<noteq> c0 \<and> is_flagged s [c']"
  have r: "is_flagged (toggled e [c0, j0] s) [] =
      (if is_flagged s [c0, j0] then is_flagged s [] \<and> (?o1 \<or> ?o0) else True)"
    by (simp add: f descendants_leaf cleared_job strict_prefix_pair)
  have c1: "is_flagged (toggled e [c0, j0] s) [c'] =
      (if c' = c0 then (if is_flagged s [c0, j0] then is_flagged s [c0] \<and> ?o1 else True)
       else is_flagged s [c'])" for c'
    by (simp add: f descendants_leaf cleared_job strict_prefix_pair)
  have j1: "is_flagged (toggled e [c0, j0] s) [c', j'] =
      (if c' = c0 \<and> j' = j0 then \<not> is_flagged s [c0, j0] else is_flagged s [c', j'])" for c' j'
    by (simp add: f descendants_leaf cleared_job strict_prefix_pair)
  from c have c': "cats e \<noteq> {} \<longrightarrow> (is_flagged s [] \<longleftrightarrow> (\<exists>c \<in> cats e. is_flagged s [c]))"
    "\<forall>c \<in> cats e. jobs s c \<noteq> {} \<longrightarrow>
        (is_flagged s [c] \<longleftrightarrow> (\<exists>j \<in> jobs s c. is_flagged s [c, j]))"
    unfolding consistent_shape by blast+
  from c'(2) 3 have k0: "is_flagged s [c0] \<longleftrightarrow> (\<exists>j \<in> jobs s c0. is_flagged s [c0, j])"
    by blast
  from c'(1) 3 have k1: "is_flagged s [] \<longleftrightarrow> (\<exists>c \<in> cats e. is_flagged s [c])"
    by blast
  show ?thesis
    unfolding 3 consistent_shape jobs_toggled
  proof (intro conjI impI ballI)
    assume "cats e \<noteq> {}"
    show "is_flagged (toggled e [c0, j0] s) [] =
        (\<exists>c \<in> cats e. is_flagged (toggled e [c0, j0] s) [c])"
    proof (cases "is_flagged s [c0, j0]")
      case True
      with k0 3 have "is_flagged s [c0]" by blast
      with k1 3 have "is_flagged s []" by blast
      with True \<open>is_flagged s [c0]\<close> 3 show ?thesis
        unfolding r c1 by auto
    next
      case False
      with 3 show ?thesis unfolding r c1 by auto
    qed
  next
    fix c'
    assume a: "c' \<in> cats e" "jobs s c' \<noteq> {}"
    show "is_flagged (toggled e [c0, j0] s) [c'] =
        (\<exists>j \<in> jobs s c'. is_flagged (toggled e [c0, j0] s) [c', j])"
    proof (cases "c' = c0")
      case False
      with a c'(2) show ?thesis unfolding c1 j1 by auto
    next
      case True
      show ?thesis
      proof (cases "is_flagged s [c0, j0]")
        case f: True
        with k0 3 have "is_flagged s [c0]" by blast
        with f True 3 show ?thesis unfolding c1 j1 by auto
      next
        case f: False
        with True 3 show ?thesis unfolding c1 j1 by auto
      qed
    qed
  qed
qed

subsection \<open>Sessions\<close>

lemma session_inv_cong:
  assumes "\<And>m. is_flagged s' m = is_flagged s m"
    and "\<And>m. materialized s' m = materialized s m"
    and t: "test_info_list s' = test_info_list s"
    and "widget_cache s' = widget_cache s"
  shows "session_inv e s' = session_inv e s"
proof -
  have "tree_nodes e s' = tree_nodes e s" using t by (rule tree_nodes_cong)
  moreover have "children e s' n = children e s n" for n using t by (rule children_cong)
  ultimately show ?thesis
    using assms
    by (simp add: session_inv_def all_materialized_def consistent_def cache_in_tree_def)
qed

lemma session_inv_toggled:
  assumes "session_inv e s" and "p \<in> set (tree_nodes e s)"
  shows "session_inv e (toggled e p s)"
  using assms consistent_toggled [of e s p]
  by (simp add: session_inv_def cache_in_tree_def)

lemma reload_labels_returns:
  "\<forall>w \<in> set ws. materialized s w \<Longrightarrow> \<exists>s'. reload_labels e ws s = Inr s'"
proof (induction ws arbitrary: s)
  case Nil
  then show ?case by simp
next
  case (Cons w ws)
  from Cons.prems obtain x where x: "widgets s w = Some x" "live x"
    by (auto simp: materialized_def split: option.splits)
  let ?s1 = "s\<lparr>widgets := (widgets s)
      (w \<mapsto> x\<lparr>label := get_display_text e s w (node_value x)\<rparr>)\<rparr>"
  have "\<forall>w' \<in> set ws. materialized ?s1 w'"
    using Cons.prems x by (auto simp: materialized_def)
  from Cons.IH [OF this] x show ?case by simp
qed

lemma without_labels_eqD:
  assumes "without_labels s' = without_labels s"
  shows "is_flagged s' m = is_flagged s m" "materialized s' m = materialized s m"
    "test_info_list s' = test_info_list s" "widget_cache s' = widget_cache s"
proof -
  from assms have w: "map_option (\<lambda>w. w\<lparr>label := []\<rparr>) (widgets s' m) =
      map_option (\<lambda>w. w\<lparr>label := []\<rparr>) (widgets s m)"
    by (auto simp: without_labels_def dest!: arg_cong [where f = widgets] fun_cong [where x = m])
  then show "is_flagged s' m = is_flagged s m"
    by (cases "widgets s' m"; cases "widgets s m")
      (auto simp: is_flagged_def dest: arg_cong [where f = flagged])
  from w show "materialized s' m = materialized s m"
    by (cases "widgets s' m"; cases "widgets s m")
      (auto simp: materialized_def dest: arg_cong [where f = live])
  from assms show "test_info_list s' = test_info_list s"
    by (auto simp: without_labels_def dest: arg_cong [where f = test_info_list])
  from assms show "widget_cache s' = widget_cache s"
    by (auto simp: without_labels_def dest: arg_cong [where f = widget_cache])
qed

lemma key_step:
  assumes inv: "session_inv e s" and p: "p \<in> set (tree_nodes e s)"
  shows "\<exists>r s'. unhandled_keys e p key (get_widget e p s) = Inr (r, s') \<and>
     (r = None \<or> r = Some key) \<and> (key = ''t'' \<or> key = ''T'' \<longrightarrow> r = Some key) \<and>
     session_inv e s' \<and> test_info_list s' = test_info_list s \<and>
     widget_cache s' = widget_cache s"
proof -
  from inv have am: "all_materialized e s" by (simp add: session_inv_def)
  with p have mp: "materialized s p" by (simp add: all_materialized_def)
  then obtain w where w: "widgets s p = Some w" "live w"
    by (auto simp: materialized_def split: option.splits)
  then have g: "get_widget e p s = s" by (simp add: get_widget_def)
  consider (space) "key = '' ''" | (enter) "key \<noteq> '' ''" "\<not> is_leaf p \<and> key = ''enter''"
    | (mode) "key = ''i'' \<or> key = ''I''"
    | (other) "key \<noteq> '' ''" "\<not> (\<not> is_leaf p \<and> key = ''enter'')" "\<not> (key = ''i'' \<or> key = ''I'')"
    by blast
  then show ?thesis
  proof cases
    case space
    with toggle_materialized [OF am p] session_inv_toggled [OF inv p] show ?thesis
      unfolding g by simp
  next
    case enter
    let ?s1 = "s\<lparr>widgets := (widgets s)(p \<mapsto> w\<lparr>expanded := \<not> expanded w\<rparr>)\<rparr>"
    have u: "unhandled_keys e p key s = Inr (None, ?s1)"
      using enter w by (simp add: unhandled_keys_def update_expanded_icon_def)
    have "session_inv e ?s1 = session_inv e s"
      using w by (intro session_inv_cong) (auto simp: is_flagged_def materialized_def)
    with u inv enter show ?thesis
      unfolding g by simp
  next
    case mode
    let ?s1 = "s\<lparr>show_job_ids := \<not> show_job_ids s\<rparr>"
    let ?ws = "map snd (widget_cache ?s1)"
    have "\<forall>w \<in> set ?ws. materialized ?s1 w"
      using inv by (auto simp: session_inv_def cache_in_tree_def all_materialized_def materialized_def)
    then obtain s2 where s2: "reload_labels e ?ws ?s1 = Inr s2"
      using reload_labels_returns by blast
    from mode have k: "key \<noteq> '' ''" "key \<noteq> ''enter''" by auto
    have u: "unhandled_keys e p key s = Inr (None, s2)"
      using mode k w s2 by (simp add: unhandled_keys_def)
    have "without_labels s2 = without_labels s"
      using reload_labels_without_labels [of e ?ws ?s1] s2 by simp
    note d = without_labels_eqD [OF this]
    have "session_inv e s2 = session_inv e s"
      by (intro session_inv_cong d)
    with u inv mode d show ?thesis
      unfolding g by auto
  next
    case other
    then have "unhandled_keys e p key s = Inr (Some key, s)"
      using w by (auto simp: unhandled_keys_def)
    with inv show ?thesis unfolding g by simp
  qed
qed

lemma session_inv_init:
  assumes "widget_cache g = []"
  shows "session_inv e (CategoryBrowser_init e g)"
proof -
  let ?s = "CategoryBrowser_init e g"
  have f: "materialized ?s n \<and> is_flagged ?s n" if "n \<in> set (tree_nodes e ?s)" for n
    using that by (intro sound_loaded sound_init loaded_init assms)
  then have am: "all_materialized e ?s" by (simp add: all_materialized_def)
  have r: "is_flagged ?s []" by (intro f [THEN conjunct2]) (simp add: set_tree_nodes)
  have c: "is_flagged ?s [c]" if "c \<in> cats e" for c
    using that by (intro f [THEN conjunct2]) (simp add: set_tree_nodes)
  have j: "is_flagged ?s [c, j]" if "c \<in> cats e" "j \<in> jobs ?s c" for c j
    using that by (intro f [THEN conjunct2]) (simp add: set_tree_nodes)
  have co: "consistent e ?s"
    unfolding consistent_shape using r c j by auto
  have "cache_in_tree e ?s"
    using cache_init [OF assms, of e]
    by (auto simp: cache_in_tree_def set_tree_nodes get_key_def)
  with am co show ?thesis by (simp add: session_inv_def)
qed

lemma key_presses_inv:
  "session_inv e s \<Longrightarrow> \<forall>(p, k) \<in> set evs. p \<in> set (tree_nodes e s) \<Longrightarrow>
     \<exists>s'. key_presses e evs s = Inr s' \<and> session_inv e s' \<and>
       test_info_list s' = test_info_list s \<and> widget_cache s' = widget_cache s"
proof (induction evs arbitrary: s)
  case Nil
  then show ?case by simp
next
  case (Cons ev evs)
  obtain p key where ev: "ev = (p, key)" by (cases ev)
  with Cons.prems have p: "p \<in> set (tree_nodes e s)" by simp
  from key_step [OF Cons.prems(1) p, of key] obtain r s1
    where u: "unhandled_keys e p key (get_widget e p s) = Inr (r, s1)"
      and i: "session_inv e s1" and t: "test_info_list s1 = test_info_list s"
      and c: "widget_cache s1 = widget_cache s"
    by blast
  have "tree_nodes e s1 = tree_nodes e s" using t by (rule tree_nodes_cong)
  with Cons.prems(2) have "\<forall>(p, k) \<in> set evs. p \<in> set (tree_nodes e s1)" by simp
  from Cons.IH [OF i this] u t c ev show ?case by simp
qed

lemma main_loop_inv:
  "session_inv e s \<Longrightarrow> \<forall>(p, k) \<in> set evs. p \<in> set (tree_nodes e s) \<Longrightarrow>
     main_loop e evs s = Some r \<Longrightarrow>
     \<exists>s'. r = Inr s' \<and> session_inv e s' \<and>
       test_info_list s' = test_info_list s \<and> widget_cache s' = widget_cache s"
proof (induction evs arbitrary: s)
  case Nil
  then show ?case by simp
next
  case (Cons ev evs)
  obtain p key where ev: "ev = (p, key)" by (cases ev)
  with Cons.prems have p: "p \<in> set (tree_nodes e s)" by simp
  from key_step [OF Cons.prems(1) p, of key] obtain x s1
    where u: "unhandled_keys e p key (get_widget e p s) = Inr (x, s1)"
      and x: "x = None \<or> x = Some key"
      and i: "session_inv e s1" and t: "test_info_list s1 = test_info_list s"
      and c: "widget_cache s1 = widget_cache s"
    by blast
  have "tree_nodes e s1 = tree_nodes e s" using t by (rule tree_nodes_cong)
  with Cons.prems(2) have evs: "\<forall>(p, k) \<in> set evs. p \<in> set (tree_nodes e s1)" by simp
  show ?case
  proof (cases "x = Some key \<and> (key = ''t'' \<or> key = ''T'')")
    case True
    with Cons.prems(3) u ev have "r = Inr s1" by auto
    with i t c show ?thesis by simp
  next
    case False
    with Cons.prems(3) u ev x have "main_loop e evs s1 = Some r" by auto
    from Cons.IH [OF i evs this] t c show ?thesis by simp
  qed
qed

text \<open>
  C3, as amended. Start from the state \<open>CategoryBrowser_init\<close> leaves (built with an empty
  cache) and press any keys on nodes of the tree. No key raises, every node stays
  materialized, and every node that is not a leaf and has at least one child is included
  exactly when one of its children is.
\<close>

theorem toggles_keep_parents_consistent:
  assumes "widget_cache g = []"
    and "\<forall>(p, k) \<in> set evs. p \<in> set (tree_nodes e (CategoryBrowser_init e g))"
  shows "\<exists>s. key_presses e evs (CategoryBrowser_init e g) = Inr s \<and>
     (\<forall>n \<in> set (tree_nodes e s). materialized s n) \<and>
     (\<forall>n \<in> set (tree_nodes e s). \<not> is_leaf n \<and> children e s n \<noteq> [] \<longrightarrow>
        (is_flagged s n \<longleftrightarrow> (\<exists>c \<in> set (children e s n). is_flagged s c)))"
  using key_presses_inv [OF session_inv_init [OF assms(1)] assms(2)]
  unfolding session_inv_def all_materialized_def consistent_def by blast

theorem toggles_keep_parents_consistent_witness:
  "widget_cache module_state = [] \<and>
   (case key_presses env_AB [([''A'', ''job1''], '' ''), ([''A'', ''job2''], '' '')]
           (CategoryBrowser_init env_AB module_state) of
      Inr s \<Rightarrow>
        \<not> is_flagged s [''A''] \<and> is_flagged s [] \<and> is_flagged s [''B''] \<and>
        list_all (materialized s) (tree_nodes env_AB s)
    | Inl x \<Rightarrow> False)"
proof -
  let ?evs = "[([''A'', ''job1''], '' ''), ([''A'', ''job2''], '' '')]"
  have h1: "widget_cache module_state = []" by (simp add: module_state_def)
  have h2: "\<forall>(p, k) \<in> set ?evs.
      p \<in> set (tree_nodes env_AB (CategoryBrowser_init env_AB module_state))"
    by code_simp
  have a: "case key_presses env_AB ?evs (CategoryBrowser_init env_AB module_state) of
      Inr s \<Rightarrow> \<not> is_flagged s [''A''] \<and> is_flagged s [] \<and> is_flagged s [''B'']
    | Inl x \<Rightarrow> False"
    by code_simp
  from toggles_keep_parents_consistent [OF h1 h2]
  obtain s where eq: "key_presses env_AB ?evs (CategoryBrowser_init env_AB module_state) = Inr s"
    and m: "\<forall>n \<in> set (tree_nodes env_AB s). materialized s n"
    by blast
  from a eq m have "case key_presses env_AB ?evs (CategoryBrowser_init env_AB module_state) of
      Inr s \<Rightarrow>
        \<not> is_flagged s [''A''] \<and> is_flagged s [] \<and> is_flagged s [''B''] \<and>
        list_all (materialized s) (tree_nodes env_AB s)
    | Inl x \<Rightarrow> False"
    by (simp add: list_all_iff)
  with h1 show ?thesis by (intro conjI)
qed

text \<open>
  C3 as stated fails for a category without children: after the space key on it, it is
  excluded although it has no child (the claim requires such a node to be included).
\<close>

theorem childless_category_counterexample:
  "(case key_presses env_lonely [([''A''], '' '')]
           (CategoryBrowser_init env_lonely module_state) of
      Inr s \<Rightarrow>
        [''A''] \<in> set (tree_nodes env_lonely s) \<and> \<not> is_leaf [''A''] \<and>
        children env_lonely s [''A''] = [] \<and> \<not> is_flagged s [''A''] \<and>
        \<not> claimed_invariant env_lonely s
    | Inl x \<Rightarrow> False)"
  by code_simp

text \<open>
  C7. In a session (the browser built with an empty cache, keys pressed on nodes of the tree,
  \<open>run\<close> returning): every entry of the cache that \<open>run\<close> iterates is a leaf of the tree
  under its own key, a job id of the static todo list, so the set returned holds job ids
  only. Fetching the widget of a node that is not a leaf never changes the cache.
\<close>

theorem cache_holds_job_widgets_only:
  assumes "widget_cache g = []"
    and "\<forall>(p, k) \<in> set evs. p \<in> set (tree_nodes e (CategoryBrowser_init e g))"
    and "run e evs (CategoryBrowser_init e g) = Some (Inr (chosen, s'))"
  shows "chosen \<subseteq> set (get_static_todo_list e) \<and>
     (\<exists>s. main_loop e evs (CategoryBrowser_init e g) = Some (Inr s) \<and>
        (\<forall>(k, n) \<in> set (widget_cache s).
           is_leaf n \<and> n \<in> set (tree_nodes e s) \<and> k = get_key n \<and>
           k \<in> set (get_static_todo_list e))) \<and>
     (\<forall>s p. \<not> is_leaf p \<longrightarrow> widget_cache (get_widget e p s) = widget_cache s)"
proof -
  let ?i = "CategoryBrowser_init e g"
  from assms(3) obtain s where m: "main_loop e evs ?i = Some (Inr s)"
    and ch: "chosen = set (selection s)"
    by (auto simp: run_def split: option.splits sum.splits)
  from main_loop_inv [OF session_inv_init [OF assms(1)] assms(2) m]
  have inv: "session_inv e s" and t: "test_info_list s = test_info_list ?i"
    and c: "widget_cache s = widget_cache ?i"
    by auto
  have tn: "tree_nodes e s = tree_nodes e ?i" using t by (rule tree_nodes_cong)
  have entries: "is_leaf n \<and> n \<in> set (tree_nodes e s) \<and> k = get_key n \<and>
      k \<in> set (get_static_todo_list e)" if "(k, n) \<in> set (widget_cache s)" for k n
  proof -
    from that cache_init [OF assms(1), of e] c obtain cc where n: "n = [cc, k]"
      and cc: "cc \<in> cats e" "k \<in> jobs ?i cc"
      by auto
    then show ?thesis
      by (simp add: tn set_tree_nodes get_key_def jobs_init)
  qed
  have "chosen \<subseteq> set (get_static_todo_list e)"
    unfolding ch using entries by (auto simp: selection_def)
  moreover have "widget_cache (get_widget e p s) = widget_cache s" if "\<not> is_leaf p" for s p
    using that by (simp add: get_widget_def load_widget_def split: option.splits)
  ultimately show ?thesis using m entries by blast
qed
theorem cache_holds_job_widgets_only_witness:
  "widget_cache module_state = [] \<and>
   (case run env_AB [([''A''], '' ''), ([], ''T'')] (CategoryBrowser_init env_AB module_state) of
      Some (Inr (chosen, s')) \<Rightarrow>
        chosen = {''job3''} \<and> chosen \<subseteq> set (get_static_todo_list env_AB)
    | _ \<Rightarrow> False)"
proof -
  let ?evs = "[([''A''], '' ''), ([], ''T'')]"
  let ?i = "CategoryBrowser_init env_AB module_state"
  have h1: "widget_cache module_state = []" by (simp add: module_state_def)
  have h2: "\<forall>(p, k) \<in> set ?evs. p \<in> set (tree_nodes env_AB ?i)"
    by code_simp
  have a: "case run env_AB ?evs ?i of
      Some (Inr (chosen, s')) \<Rightarrow> chosen = {''job3''} | _ \<Rightarrow> False"
    by code_simp
  have "case run env_AB ?evs ?i of
      Some (Inr (chosen, s')) \<Rightarrow>
        chosen = {''job3''} \<and> chosen \<subseteq> set (get_static_todo_list env_AB)
    | _ \<Rightarrow> False"
  proof (cases "run env_AB ?evs ?i")
    case None
    with a show ?thesis by simp
  next
    case (Some r)
    show ?thesis
    proof (cases r)
      case (Inl x)
      with a Some show ?thesis by simp
    next
      case (Inr y)
      obtain chosen s' where y: "y = (chosen, s')" by (cases y)
      from Some Inr y have "run env_AB ?evs ?i = Some (Inr (chosen, s'))" by simp
      from cache_holds_job_widgets_only [OF h1 h2 this]
      have "chosen \<subseteq> set (get_static_todo_list env_AB)" by blast
      with a Some Inr y show ?thesis by simp
    qed
  qed
  with h1 show ?thesis by (intro conjI)
qed

end
